theory Spec2Isabelle
  imports Main
begin

section \<open>Device discovery of the ev3dev sysfs bindings\<close>

text \<open>
  A shallow embedding of the sysfs helper file of package \<open>ev3dev\<close>: the address codec
  (\<open>newAddress\<close>, \<open>address.String\<close>, \<open>readAttrBytes\<close>, \<open>readAttrAddr\<close>) and the
  device directory scanner (\<open>parseDeviceName\<close>, \<open>deviceDir.list\<close>,
  \<open>deviceDir.findByAddress\<close>).

  Conventions. A Go \<open>string\<close> and a Go \<open>[]byte\<close> are a \<open>char list\<close>: an Isabelle
  \<open>char\<close> is one byte, \<open>of_char\<close> reads it as a number and \<open>char_of\<close> is the
  conversion \<open>byte(n)\<close>, which keeps the low eight bits. A Go \<open>error\<close> is a value of
  the datatype \<open>error\<close>; a run-time panic (index or slice bounds out of range) is the
  value \<open>Panic\<close>. Struct fields carry the initials of their struct, because the field
  names \<open>n\<close> and \<open>i\<close> of the source would capture the variables of every lemma:
  \<open>dn_name\<close>, \<open>dn_n\<close> (deviceName), \<open>se_i\<close>, \<open>se_addr\<close> (skipEntry), \<open>d_path\<close>,
  \<open>d_prefix\<close>, \<open>d_n\<close>, \<open>d_skipped\<close> (deviceDir).
\<close>

datatype error =
    ListError       \<comment> \<open>\<open>os.Open(d.path)\<close> or \<open>Readdirnames\<close> failed\<close>
  | OpenError       \<comment> \<open>\<open>os.Open\<close> of an attribute file failed\<close>
  | ReadError       \<comment> \<open>\<open>ReadAt\<close> failed with an error other than \<open>io.EOF\<close>\<close>
  | TooLong         \<comment> \<open>"address too long"\<close>
  | NotFound        \<comment> \<open>"find device ...: not found"\<close>
  | Panic           \<comment> \<open>run-time panic: index or slice bounds out of range\<close>

subsection \<open>Address codec\<close>

text \<open>\<open>type address [64]byte\<close>. The zero value is sixty-four zero bytes.\<close>

type_synonym address = "char list"

definition addressLen :: nat where
  "addressLen = 64"

definition zeroAddress :: address where
  "zeroAddress = replicate addressLen (char_of (0::nat))"

text \<open>
  The builtin \<open>copy(dst[off:], src)\<close>: it copies \<open>min (len dst - off) (len src)\<close> bytes and
  leaves the rest of \<open>dst\<close> as it is. The source only calls it with \<open>off \<le> len dst\<close>.
\<close>

definition copyAt :: "char list \<Rightarrow> nat \<Rightarrow> char list \<Rightarrow> char list" where
  "copyAt dst off src =
     take off dst @ take (length dst - off) src @ drop (off + length src) dst"

text \<open>
  \<open>newAddress\<close>: the length check, the length byte, then the content.
\<close>

definition newAddress :: "string \<Rightarrow> error + address" where
  "newAddress s =
     (let a = zeroAddress in
      if length s > length a - 1 then Inl TooLong
      else Inr (copyAt (a[0 := char_of (length s)]) 1 s))"

text \<open>
  \<open>address.String\<close> is \<open>string(a[1 : a[0]+1])\<close>. The sum \<open>a[0]+1\<close> is computed on
  bytes and wraps at 256; the slice expression panics unless \<open>1 \<le> high \<le> 64\<close>.
\<close>

definition address_String :: "address \<Rightarrow> error + string" where
  "address_String a =
     (let high = (of_char (a ! 0) + 1) mod 256 :: nat in
      if 1 \<le> high \<and> high \<le> length a then Inr (take (high - 1) (drop 1 a))
      else Inl Panic)"

text \<open>
  An \<open>io.ReaderAt\<close>: either a file with the given content, or a reader whose \<open>ReadAt\<close>
  fails with an error other than \<open>io.EOF\<close>.
\<close>

datatype readerAt = Content string | Failing

text \<open>
  \<open>file.ReadAt(p, 0)\<close> on a file with content \<open>c\<close> fills \<open>p\<close> with the first
  \<open>min (len p) (len c)\<close> bytes of \<open>c\<close> and returns that count (with \<open>io.EOF\<close> when the
  count is below \<open>len p\<close>, which \<open>readAttrBytes\<close> ignores). \<open>readAttrBytes\<close> returns the
  count, less one if the bytes read end in a newline, together with the buffer.
\<close>

definition readAttrBytes :: "readerAt \<Rightarrow> char list \<Rightarrow> error + (nat \<times> char list)" where
  "readAttrBytes f p =
     (case f of
        Failing \<Rightarrow> Inl ReadError
      | Content c \<Rightarrow>
          (let n = min (length p) (length c);
               p1 = copyAt p 0 (take n c)
           in if n > 0 \<and> p1 ! (n - 1) = CHR 0x0A then Inr (n - 1, p1) else Inr (n, p1)))"

text \<open>
  \<open>readAttrAddr\<close>: read into the address buffer itself, reject a count above 63, shift the
  content one byte to the right, store the length byte, zero the tail.
\<close>

definition readAttrAddr :: "readerAt \<Rightarrow> error + address" where
  "readAttrAddr f =
     (let a = zeroAddress in
      case readAttrBytes f a of
        Inl e \<Rightarrow> Inl e
      | Inr (n, a1) \<Rightarrow>
          if n > length a1 - 1 then Inl TooLong
          else
            (let a2 = copyAt a1 1 (take n a1);
                 a3 = a2[0 := char_of n]
             in Inr (take (n + 1) a3 @ replicate (length a3 - (n + 1)) (char_of (0::nat)))))"

text \<open>
  The bytes \<open>p[:n]\<close> that \<open>readAttrBytes\<close> leaves: the bytes read, without one
  trailing newline (\<open>bytes.HasSuffix(p[:n], "\n")\<close>, then \<open>n--\<close>). Used to state what
  \<open>readAttrAddr\<close> computes.
\<close>

definition stripNewline :: "char list \<Rightarrow> char list" where
  "stripNewline b = (if b \<noteq> [] \<and> last b = CHR 0x0A then butlast b else b)"

subsection \<open>Device names\<close>

record deviceName =
  dn_name :: string
  dn_n :: int

definition zeroDeviceName :: deviceName where
  "zeroDeviceName = \<lparr>dn_name = [], dn_n = 0\<rparr>"

text \<open>\<open>strings.HasPrefix\<close>.\<close>

definition HasPrefix :: "string \<Rightarrow> string \<Rightarrow> bool" where
  "HasPrefix s p = (length s \<ge> length p \<and> take (length p) s = p)"

text \<open>
  \<open>strconv.Atoi\<close> of the Go standard library, by its documented behaviour: an optional
  sign \<open>+\<close> or \<open>-\<close>, then one or more decimal digits, and the value must fit the type
  \<open>int\<close>; anything else is an error (\<open>None\<close>). \<open>bits\<close> is the size of \<open>int\<close> on the
  platform (\<open>strconv.IntSize\<close>, 32 or 64).
\<close>

definition isDigit :: "char \<Rightarrow> bool" where
  "isDigit c = (48 \<le> (of_char c :: nat) \<and> (of_char c :: nat) \<le> 57)"

fun decimal :: "int \<Rightarrow> string \<Rightarrow> int" where
  "decimal acc [] = acc"
| "decimal acc (c # cs) = decimal (acc * 10 + (of_char c - 48)) cs"

definition Atoi :: "nat \<Rightarrow> string \<Rightarrow> int option" where
  "Atoi bits s =
     (let neg = (s \<noteq> [] \<and> hd s = CHR ''-'');
          ds = (if s \<noteq> [] \<and> (hd s = CHR ''-'' \<or> hd s = CHR ''+'') then tl s else s);
          v = (if neg then - decimal 0 ds else decimal 0 ds)
      in if ds = [] \<or> \<not> list_all isDigit ds then None
         else if - (2 ^ (bits - 1)) \<le> v \<and> v < 2 ^ (bits - 1) then Some v
         else None)"

text \<open>\<open>parseDeviceName\<close>: the zero \<open>deviceName\<close> stands for "no match".\<close>

definition parseDeviceName :: "nat \<Rightarrow> string \<Rightarrow> string \<Rightarrow> deviceName" where
  "parseDeviceName bits name prefix =
     (if \<not> HasPrefix name prefix then zeroDeviceName
      else case Atoi bits (drop (length prefix) name) of
             None \<Rightarrow> zeroDeviceName
           | Some v \<Rightarrow> \<lparr>dn_name = name, dn_n = v\<rparr>)"

subsection \<open>The device directory\<close>

record skipEntry =
  se_i :: int
  se_addr :: address

record deviceDir =
  d_path :: string
  d_prefix :: string
  d_n :: int
  d_skipped :: "skipEntry list"

definition newDeviceDir :: "string \<Rightarrow> string \<Rightarrow> deviceDir" where
  "newDeviceDir path prefix = \<lparr>d_path = path, d_prefix = prefix, d_n = - 1, d_skipped = []\<rparr>"

text \<open>
  What one call of \<open>findByAddress\<close> sees of the file system: the names that
  \<open>Readdirnames\<close> returns for \<open>d.path\<close> (\<open>None\<close> when opening or reading the directory
  fails), and for each name the reader that \<open>os.Open\<close> of its \<open>address\<close> attribute gives
  (\<open>None\<close> when the open fails). The file system may change in any way between two calls:
  each call takes its own snapshot.
\<close>

record sysfs =
  readdirnames :: "string list option"
  openAddress :: "string \<Rightarrow> readerAt option"

text \<open>
  \<open>deviceDir.list\<close>. \<open>sort.Slice\<close> orders by \<open>n\<close> and promises no order among entries
  of equal \<open>n\<close>. The model sorts stably. The order among equal \<open>n\<close> only shows when two
  names of the directory have the same number (as \<open>sensor1\<close> and \<open>sensor01\<close>); the
  lemmas on the scan below only use that the list is ordered by \<open>n\<close>.
\<close>

definition deviceDir_list :: "nat \<Rightarrow> sysfs \<Rightarrow> deviceDir \<Rightarrow> error + deviceName list" where
  "deviceDir_list bits fs d =
     (case readdirnames fs of
        None \<Rightarrow> Inl ListError
      | Some names \<Rightarrow>
          Inr (sort_key dn_n
                 (filter (\<lambda>dn. dn \<noteq> zeroDeviceName)
                    (map (\<lambda>name. parseDeviceName bits name (d_prefix d)) names))))"

text \<open>
  Opening and reading the \<open>address\<close> attribute of one device (lines 73 to 81 of the
  source).
\<close>

definition readAddress :: "sysfs \<Rightarrow> deviceName \<Rightarrow> error + address" where
  "readAddress fs dn =
     (case openAddress fs (dn_name dn) of
        None \<Rightarrow> Inl OpenError
      | Some f \<Rightarrow> readAttrAddr f)"

text \<open>
  Checked slice operations. \<open>xs[k]\<close> panics unless \<open>k < len xs\<close>. The slices
  \<open>xs[:k]\<close> and \<open>xs[k+1:]\<close> of \<open>append(xs[:k], xs[k+1:]...)\<close> panic, in this model, unless
  \<open>k + 1 \<le> len xs\<close> (Go allows \<open>xs[:k]\<close> up to the capacity, which is not below the
  length: the model panics at least where Go does).
\<close>

definition index :: "'a list \<Rightarrow> nat \<Rightarrow> error + 'a" where
  "index xs k = (if k < length xs then Inr (xs ! k) else Inl Panic)"

definition removeAt :: "'a list \<Rightarrow> nat \<Rightarrow> error + 'a list" where
  "removeAt xs k = (if k + 1 \<le> length xs then Inr (take k xs @ drop (k + 1) xs) else Inl Panic)"

text \<open>
  The inner loop
  \<open>for skipIndex < len(d.skipped) && d.skipped[skipIndex].i < dn.n { skipIndex++ }\<close>.
\<close>

function advance :: "skipEntry list \<Rightarrow> nat \<Rightarrow> int \<Rightarrow> error + nat" where
  "advance skipped skipIndex m =
     (if skipIndex < length skipped then
        (case index skipped skipIndex of
           Inl e \<Rightarrow> Inl e
         | Inr se \<Rightarrow> if se_i se < m then advance skipped (skipIndex + 1) m else Inr skipIndex)
      else Inr skipIndex)"
  by pat_completeness auto
termination
  by (relation "measure (\<lambda>(skipped, skipIndex, m). length skipped - skipIndex)") auto

text \<open>
  Where that loop stops, as a closed form: it passes the longest run of entries, from
  \<open>skipIndex\<close> on, whose number is below \<open>m\<close> (lemma \<open>advance_cursorAt\<close>).
\<close>

definition cursorAt :: "skipEntry list \<Rightarrow> nat \<Rightarrow> int \<Rightarrow> nat" where
  "cursorAt skipped skipIndex m =
     skipIndex + length (takeWhile (\<lambda>se. se_i se < m) (drop skipIndex skipped))"

text \<open>The test \<open>skipIndex < len(d.skipped) && d.skipped[skipIndex].i == dn.n\<close>.\<close>

definition inSkipList :: "skipEntry list \<Rightarrow> nat \<Rightarrow> int \<Rightarrow> error + bool" where
  "inSkipList skipped skipIndex m =
     (if skipIndex < length skipped then
        (case index skipped skipIndex of
           Inl e \<Rightarrow> Inl e
         | Inr se \<Rightarrow> Inr (se_i se = m))
      else Inr False)"

text \<open>
  The value \<open>filepath.Join(d.path, dn.name)\<close>, kept as its two arguments: the lexical
  cleaning that \<open>Join\<close> does is not modelled.
\<close>

datatype filepath = Join string string

text \<open>
  A call returns its Go results, the \<open>deviceDir\<close> as the call leaves it, and the list of
  the reads of \<open>address\<close> attributes it made, in order, each with what the read gave.
\<close>

type_synonym readLog = "(deviceName \<times> (error + address)) list"

type_synonym outcome = "(error + filepath) \<times> deviceDir \<times> readLog"

text \<open>
  The loop \<open>for _, dn := range deviceNames\<close> of \<open>findByAddress\<close>, from the current
  \<open>deviceDir\<close> and \<open>skipIndex\<close>. A \<open>continue\<close> is the recursive call on the rest of the
  names.
\<close>

fun scanDevices :: "sysfs \<Rightarrow> address \<Rightarrow> deviceName list \<Rightarrow> deviceDir \<Rightarrow> nat \<Rightarrow> outcome" where
  "scanDevices fs a [] d skipIndex = (Inl NotFound, d, [])"
| "scanDevices fs a (dn # dns) d skipIndex =
     (case advance (d_skipped d) skipIndex (dn_n dn) of
        Inl e \<Rightarrow> (Inl e, d, [])
      | Inr k \<Rightarrow>
          (case inSkipList (d_skipped d) k (dn_n dn) of
             Inl e \<Rightarrow> (Inl e, d, [])
           | Inr True \<Rightarrow>
               (case index (d_skipped d) k of
                  Inl e \<Rightarrow> (Inl e, d, [])
                | Inr se \<Rightarrow>
                    if se_addr se \<noteq> a then scanDevices fs a dns d k
                    else (case removeAt (d_skipped d) k of
                            Inl e \<Rightarrow> (Inl e, d, [])
                          | Inr skipped' \<Rightarrow>
                              (Inr (Join (d_path d) (dn_name dn)),
                               d\<lparr>d_skipped := skipped'\<rparr>, [])))
           | Inr False \<Rightarrow>
               if d_n d \<ge> 0 \<and> dn_n dn \<le> d_n d then scanDevices fs a dns d k
               else (case readAddress fs dn of
                       Inl e \<Rightarrow> (Inl e, d, [(dn, Inl e)])
                     | Inr devAddr \<Rightarrow>
                         (let d1 = d\<lparr>d_n := dn_n dn\<rparr> in
                          if devAddr = a
                          then (Inr (Join (d_path d) (dn_name dn)), d1, [(dn, Inr devAddr)])
                          else (case scanDevices fs a dns
                                       (d1\<lparr>d_skipped :=
                                             d_skipped d1 @ [\<lparr>se_i = dn_n dn, se_addr = devAddr\<rparr>]\<rparr>) k of
                                  (r, d', lg) \<Rightarrow> (r, d', (dn, Inr devAddr) # lg))))))"

definition findByAddress :: "nat \<Rightarrow> sysfs \<Rightarrow> deviceDir \<Rightarrow> address \<Rightarrow> outcome" where
  "findByAddress bits fs d addr =
     (case deviceDir_list bits fs d of
        Inl e \<Rightarrow> (Inl e, d, [])
      | Inr deviceNames \<Rightarrow> scanDevices fs addr deviceNames d 0)"

subsection \<open>Sequences of calls\<close>

text \<open>
  The calls made on one \<open>deviceDir\<close> over its life: each call has its snapshot of the
  file system and the address asked for, and works on the \<open>deviceDir\<close> as the call
  before left it. \<open>run\<close> gives the outcome of every call, \<open>finalState\<close> the
  \<open>deviceDir\<close> after the last one.
\<close>

fun run :: "nat \<Rightarrow> deviceDir \<Rightarrow> (sysfs \<times> address) list \<Rightarrow> outcome list" where
  "run bits d [] = []"
| "run bits d ((fs, addr) # calls) =
     (case findByAddress bits fs d addr of
        (r, d', lg) \<Rightarrow> (r, d', lg) # run bits d' calls)"

fun finalState :: "nat \<Rightarrow> deviceDir \<Rightarrow> (sysfs \<times> address) list \<Rightarrow> deviceDir" where
  "finalState bits d [] = d"
| "finalState bits d ((fs, addr) # calls) =
     finalState bits (fst (snd (findByAddress bits fs d addr))) calls"

text \<open>
  The slot number of a returned path: the number that \<open>parseDeviceName\<close> reads in its
  last component. A result names slot \<open>N\<close> when it is a path whose slot number is \<open>N\<close>.
\<close>

definition slotOf :: "nat \<Rightarrow> string \<Rightarrow> filepath \<Rightarrow> int option" where
  "slotOf bits prefix p =
     (case p of Join dir name \<Rightarrow>
        (let dn = parseDeviceName bits name prefix
         in if dn = zeroDeviceName then None else Some (dn_n dn)))"

definition returnedSlot :: "nat \<Rightarrow> string \<Rightarrow> error + filepath \<Rightarrow> int option" where
  "returnedSlot bits prefix r = (case r of Inl e \<Rightarrow> None | Inr p \<Rightarrow> slotOf bits prefix p)"

subsection \<open>Vocabulary of the properties\<close>

text \<open>
  The entries that a read log adds to the skip list when no read of it matches: one per
  successful read, in order.
\<close>

fun recorded :: "readLog \<Rightarrow> skipEntry list" where
  "recorded [] = []"
| "recorded ((dn, Inr x) # lg) = \<lparr>se_i = dn_n dn, se_addr = x\<rparr> # recorded lg"
| "recorded ((dn, Inl e) # lg) = recorded lg"

text \<open>
  The order that the skip list keeps in every state a \<open>deviceDir\<close> can reach, whatever
  the directory holds: an entry with a number that is not negative is above every entry
  before it, and no entry after it is negative. Among entries that are not negative this
  is the strict order of their numbers. With it, every number that is not negative in
  the skip list is at most \<open>d.n\<close>.
\<close>

definition entryOrder :: "skipEntry \<Rightarrow> skipEntry \<Rightarrow> bool" where
  "entryOrder x y = ((0 \<le> se_i x \<or> 0 \<le> se_i y) \<longrightarrow> se_i x < se_i y)"

definition wellFormed :: "deviceDir \<Rightarrow> bool" where
  "wellFormed d =
     (sorted_wrt entryOrder (d_skipped d)
      \<and> (\<forall>se \<in> set (d_skipped d). 0 \<le> se_i se \<longrightarrow> se_i se \<le> d_n d))"

text \<open>All reads of a sequence of calls, in order.\<close>

definition allReads :: "nat \<Rightarrow> deviceDir \<Rightarrow> (sysfs \<times> address) list \<Rightarrow> readLog" where
  "allReads bits d calls = concat (map (\<lambda>(r, d', lg). lg) (run bits d calls))"

subsection \<open>Fixtures\<close>

text \<open>
  As in the tests of the package: the address of a string (the tests stop when
  \<open>newAddress\<close> fails), and a class directory given by its entries, each with the content
  of its \<open>address\<close> attribute.
\<close>

definition addrOf :: "string \<Rightarrow> address" where
  "addrOf s = (case newAddress s of Inr a \<Rightarrow> a | Inl e \<Rightarrow> zeroAddress)"

definition classDir :: "(string \<times> string) list \<Rightarrow> sysfs" where
  "classDir entries =
     \<lparr>readdirnames = Some (map fst entries),
      openAddress = (\<lambda>name. map_option Content (map_of entries name))\<rparr>"

subsection \<open>Facts about the codec\<close>

lemma length_copyAt:
  "off \<le> length dst \<Longrightarrow> length (copyAt dst off src) = length dst"
  by (auto simp: copyAt_def)

lemma zero_buffer:
  "replicate 64 z = z # replicate 63 z"
proof -
  have "(64::nat) = Suc 63" by simp
  then show ?thesis by (simp only: replicate_Suc)
qed

lemma copyAt_header:
  "length s \<le> 63 \<Longrightarrow>
     copyAt ((replicate 64 z)[0 := c]) (Suc 0) s = c # s @ replicate (63 - length s) z"
  by (simp add: zero_buffer copyAt_def)

lemma newAddress_Inr:
  "length s \<le> 63 \<Longrightarrow>
     newAddress s = Inr (char_of (length s) # s @ replicate (63 - length s) (char_of (0::nat)))"
  by (simp add: newAddress_def zeroAddress_def addressLen_def Let_def copyAt_header)

lemma newAddress_Inl:
  "63 < length s \<Longrightarrow> newAddress s = Inl TooLong"
  by (simp add: newAddress_def zeroAddress_def addressLen_def Let_def)

text \<open>
  C9. Round trip of the codec: for every string of at most 63 bytes, \<open>newAddress\<close>
  succeeds and \<open>address.String\<close> of its result is the string; and \<open>newAddress\<close>
  fails, with "address too long", exactly when the string is longer than 63 bytes.
\<close>

theorem address_round_trip:
  "(length s \<le> 63 \<longrightarrow> (\<exists>a. newAddress s = Inr a \<and> address_String a = Inr s))
   \<and> (newAddress s = Inl TooLong \<longleftrightarrow> 63 < length s)
   \<and> ((\<exists>e. newAddress s = Inl e) \<longleftrightarrow> 63 < length s)"
proof -
  have ok: "address_String (char_of (length s) # s @ replicate (63 - length s) (char_of (0::nat))) = Inr s"
    if "length s \<le> 63"
    using that by (simp add: address_String_def Let_def)
  show ?thesis
  proof (cases "length s \<le> 63")
    case True
    then show ?thesis using ok by (simp add: newAddress_Inr)
  next
    case False
    then show ?thesis by (simp add: newAddress_Inl)
  qed
qed

theorem address_round_trip_witness:
  "length ''spi0.1:S3'' \<le> 63
   \<and> (\<exists>a. newAddress ''spi0.1:S3'' = Inr a \<and> address_String a = Inr ''spi0.1:S3'')"
  using address_round_trip [of "''spi0.1:S3''"] by simp

lemma copyAt_zero:
  "length x \<le> length p \<Longrightarrow> copyAt p 0 x = x @ drop (length x) p"
  by (simp add: copyAt_def)

lemma readAttrBytes_buffer:
  assumes "length b \<le> 64"
  shows "(if length b > 0 \<and> copyAt (replicate 64 z) 0 b ! (length b - 1) = CHR 0x0A
          then Inr (length b - 1, copyAt (replicate 64 z) 0 b)
          else Inr (length b, copyAt (replicate 64 z) 0 b))
         = (Inr (length (stripNewline b), b @ replicate (64 - length b) z) :: error + nat \<times> char list)"
proof (cases "b = []")
  case True
  then show ?thesis by (simp add: stripNewline_def copyAt_zero)
next
  case False
  then have "(b @ replicate (64 - length b) z) ! (length b - 1) = last b"
    by (simp add: nth_append last_conv_nth)
  then show ?thesis using False assms
    by (simp add: stripNewline_def copyAt_zero)
qed

lemma readAttrBytes_Content:
  "readAttrBytes (Content c) (replicate 64 z) =
     Inr (length (stripNewline (take 64 c)),
          take 64 c @ replicate (64 - length (take 64 c)) z)"
proof -
  have n: "min (length (replicate 64 z)) (length c) = length (take 64 c)"
    by (simp add: min.commute)
  have t: "take (length (take 64 c)) c = take 64 c"
    by (simp add: min_def)
  have "length (take 64 c) \<le> 64" by simp
  from readAttrBytes_buffer [OF this, of z] show ?thesis
    unfolding readAttrBytes_def readerAt.case Let_def n t .
qed

lemma readAttrAddr_buffer:
  assumes "length b \<le> 64"
  shows "(let n = length (stripNewline b); a1 = b @ replicate (64 - length b) z
          in if n > length a1 - 1 then Inl TooLong
             else (let a2 = copyAt a1 1 (take n a1); a3 = a2[0 := char_of n]
                   in Inr (take (n + 1) a3 @ replicate (length a3 - (n + 1)) z)))
         = (if 63 < length (stripNewline b) then Inl TooLong
            else Inr (char_of (length (stripNewline b)) # stripNewline b
                        @ replicate (63 - length (stripNewline b)) z))"
proof -
  let ?s = "stripNewline b"
  let ?a1 = "b @ replicate (64 - length b) z"
  have la1: "length ?a1 = 64" using assms by simp
  have s_le: "length ?s \<le> length b" by (simp add: stripNewline_def)
  have s_take: "take (length ?s) ?a1 = ?s"
    by (auto simp: stripNewline_def butlast_conv_take)
  show ?thesis
  proof (cases "63 < length ?s")
    case True
    then show ?thesis unfolding Let_def la1 by simp
  next
    case False
    then have le: "length ?s \<le> 63" by simp
    obtain x xs where a1: "?a1 = x # xs" and lxs: "length xs = 63"
      using la1 by (cases ?a1) auto
    have a2: "copyAt ?a1 (Suc 0) ?s = x # ?s @ drop (length ?s) xs"
      unfolding a1 using le lxs by (simp add: copyAt_def)
    have la2: "length (copyAt ?a1 (Suc 0) ?s) = 64"
      using la1 by (simp add: length_copyAt)
    have "take (length ?s + 1) ((copyAt ?a1 (Suc 0) ?s)[0 := char_of (length ?s)])
            = char_of (length ?s) # ?s"
      by (simp add: a2)
    then show ?thesis using le False
      unfolding Let_def la1 s_take by (simp add: la2)
  qed
qed

lemma readAttrAddr_Content:
  "readAttrAddr (Content c) = newAddress (stripNewline (take 64 c))"
proof -
  let ?b = "take 64 c"
  have b: "length ?b \<le> 64" by simp
  have "readAttrAddr (Content c) =
          (let n = length (stripNewline ?b); a1 = ?b @ replicate (64 - length ?b) (char_of (0::nat))
           in if n > length a1 - 1 then Inl TooLong
              else (let a2 = copyAt a1 1 (take n a1); a3 = a2[0 := char_of n]
                    in Inr (take (n + 1) a3 @ replicate (length a3 - (n + 1)) (char_of (0::nat)))))"
    unfolding readAttrAddr_def zeroAddress_def addressLen_def
    by (simp only: Let_def readAttrBytes_Content sum.case prod.case)
  also have "\<dots> = (if 63 < length (stripNewline ?b) then Inl TooLong
           else Inr (char_of (length (stripNewline ?b)) # stripNewline ?b
                  @ replicate (63 - length (stripNewline ?b)) (char_of (0::nat))))"
    by (rule readAttrAddr_buffer [OF b])
  also have "\<dots> = newAddress (stripNewline ?b)"
    by (simp add: newAddress_Inr newAddress_Inl del: length_take)
  finally show ?thesis .
qed


subsection \<open>The scan, one device at a time\<close>

declare advance.simps [simp del]

lemma advance_cursorAt:
  "advance sk k m = Inr (cursorAt sk k m)"
proof (induction sk k m rule: advance.induct)
  case (1 sk k m)
  show ?case
  proof (cases "k < length sk")
    case False
    then show ?thesis by (subst advance.simps) (simp add: cursorAt_def)
  next
    case True
    then have d: "drop k sk = sk ! k # drop (Suc k) sk"
      by (simp add: Cons_nth_drop_Suc)
    show ?thesis
    proof (cases "se_i (sk ! k) < m")
      case lt: True
      from "1.IH" [OF True, of "sk ! k"] True lt
      have "advance sk (k + 1) m = Inr (cursorAt sk (k + 1) m)"
        by (simp add: index_def)
      then show ?thesis using True lt
        by (subst advance.simps) (simp add: index_def cursorAt_def d)
    next
      case ge: False
      then show ?thesis using True
        by (subst advance.simps) (simp add: index_def cursorAt_def d)
    qed
  qed
qed

lemma cursorAt_ge: "k \<le> cursorAt sk k m"
  by (simp add: cursorAt_def)

lemma cursorAt_le_length: "k \<le> length sk \<Longrightarrow> cursorAt sk k m \<le> length sk"
proof -
  assume "k \<le> length sk"
  have "length (takeWhile (\<lambda>se. se_i se < m) (drop k sk)) \<le> length (drop k sk)"
    by (rule length_takeWhile_le)
  then show ?thesis using \<open>k \<le> length sk\<close> by (simp add: cursorAt_def)
qed

lemma cursorAt_passed:
  assumes "k \<le> j" and "j < cursorAt sk k m"
  shows "se_i (sk ! j) < m"
proof -
  let ?P = "\<lambda>se. se_i se < m"
  let ?t = "takeWhile ?P (drop k sk)"
  from assms have j: "j - k < length ?t"
    by (simp add: cursorAt_def)
  then have "?t ! (j - k) \<in> set ?t"
    by (rule nth_mem)
  then have "?P (?t ! (j - k))"
    by (rule set_takeWhileD [THEN conjunct2])
  moreover have "?t ! (j - k) = drop k sk ! (j - k)"
    using j by (rule takeWhile_nth)
  moreover have "length ?t \<le> length (drop k sk)"
    by (rule length_takeWhile_le)
  ultimately show ?thesis using assms(1) j by simp
qed

lemma cursorAt_stop:
  assumes "cursorAt sk k m < length sk"
  shows "\<not> se_i (sk ! cursorAt sk k m) < m"
proof -
  let ?P = "\<lambda>se. se_i se < m"
  let ?t = "length (takeWhile ?P (drop k sk))"
  from assms have "?t < length (drop k sk)" by (simp add: cursorAt_def)
  then have "\<not> ?P (drop k sk ! ?t)" by (rule nth_length_takeWhile)
  moreover have "k + ?t \<le> length sk" using assms by (simp add: cursorAt_def)
  ultimately show ?thesis by (simp add: cursorAt_def)
qed

lemma inSkipList_eq:
  "inSkipList sk k m = Inr (k < length sk \<and> se_i (sk ! k) = m)"
  by (simp add: inSkipList_def index_def)


lemma scanDevices_Cons:
  "scanDevices fs a (dn # dns) d k =
     (let sk = d_skipped d; k' = cursorAt sk k (dn_n dn) in
      if k' < length sk \<and> se_i (sk ! k') = dn_n dn then
        (if se_addr (sk ! k') \<noteq> a then scanDevices fs a dns d k'
         else (Inr (Join (d_path d) (dn_name dn)),
               d\<lparr>d_skipped := take k' sk @ drop (Suc k') sk\<rparr>, []))
      else if 0 \<le> d_n d \<and> dn_n dn \<le> d_n d then scanDevices fs a dns d k'
      else (case readAddress fs dn of
              Inl e \<Rightarrow> (Inl e, d, [(dn, Inl e)])
            | Inr devAddr \<Rightarrow>
                if devAddr = a
                then (Inr (Join (d_path d) (dn_name dn)), d\<lparr>d_n := dn_n dn\<rparr>, [(dn, Inr devAddr)])
                else (case scanDevices fs a dns
                             (d\<lparr>d_n := dn_n dn,
                                d_skipped := sk @ [\<lparr>se_i = dn_n dn, se_addr = devAddr\<rparr>]\<rparr>) k' of
                        (r, d', lg) \<Rightarrow> (r, d', (dn, Inr devAddr) # lg))))"
  by (simp add: advance_cursorAt inSkipList_eq index_def removeAt_def Let_def bool.case_eq_if
      split: sum.split)

declare scanDevices.simps(2) [simp del]

text \<open>The four ways one device of the list is handled, as a case rule.\<close>

lemma scanDevices_cases [case_names hit_other hit_match below read_error read_match read_other]:
  fixes d :: deviceDir and k :: nat and dn :: deviceName
  defines "sk \<equiv> d_skipped d"
  defines "k' \<equiv> cursorAt (d_skipped d) k (dn_n dn)"
  assumes "\<lbrakk>k' < length sk; se_i (sk ! k') = dn_n dn; se_addr (sk ! k') \<noteq> a;
            scanDevices fs a (dn # dns) d k = scanDevices fs a dns d k'\<rbrakk> \<Longrightarrow> P"
    and "\<lbrakk>k' < length sk; se_i (sk ! k') = dn_n dn; se_addr (sk ! k') = a;
            scanDevices fs a (dn # dns) d k =
              (Inr (Join (d_path d) (dn_name dn)),
               d\<lparr>d_skipped := take k' sk @ drop (Suc k') sk\<rparr>, [])\<rbrakk> \<Longrightarrow> P"
    and "\<lbrakk>\<not> (k' < length sk \<and> se_i (sk ! k') = dn_n dn); 0 \<le> d_n d; dn_n dn \<le> d_n d;
            scanDevices fs a (dn # dns) d k = scanDevices fs a dns d k'\<rbrakk> \<Longrightarrow> P"
    and "\<And>e. \<lbrakk>\<not> (k' < length sk \<and> se_i (sk ! k') = dn_n dn); \<not> (0 \<le> d_n d \<and> dn_n dn \<le> d_n d);
            readAddress fs dn = Inl e;
            scanDevices fs a (dn # dns) d k = (Inl e, d, [(dn, Inl e)])\<rbrakk> \<Longrightarrow> P"
    and "\<lbrakk>\<not> (k' < length sk \<and> se_i (sk ! k') = dn_n dn); \<not> (0 \<le> d_n d \<and> dn_n dn \<le> d_n d);
            readAddress fs dn = Inr a;
            scanDevices fs a (dn # dns) d k =
              (Inr (Join (d_path d) (dn_name dn)), d\<lparr>d_n := dn_n dn\<rparr>, [(dn, Inr a)])\<rbrakk> \<Longrightarrow> P"
    and "\<And>x r d' lg. \<lbrakk>\<not> (k' < length sk \<and> se_i (sk ! k') = dn_n dn);
            \<not> (0 \<le> d_n d \<and> dn_n dn \<le> d_n d);
            readAddress fs dn = Inr x; x \<noteq> a;
            scanDevices fs a dns
               (d\<lparr>d_n := dn_n dn, d_skipped := sk @ [\<lparr>se_i = dn_n dn, se_addr = x\<rparr>]\<rparr>) k'
              = (r, d', lg);
            scanDevices fs a (dn # dns) d k = (r, d', (dn, Inr x) # lg)\<rbrakk> \<Longrightarrow> P"
  shows P
proof -
  let ?k = "cursorAt (d_skipped d) k (dn_n dn)"
  let ?hit = "?k < length (d_skipped d) \<and> se_i (d_skipped d ! ?k) = dn_n dn"
  let ?below = "0 \<le> d_n d \<and> dn_n dn \<le> d_n d"
  note step = scanDevices_Cons [of fs a dn dns d k, unfolded Let_def]
  show ?thesis
  proof (cases ?hit)
    case True
    show ?thesis
    proof (cases "se_addr (d_skipped d ! ?k) = a")
      case same: True
      have "scanDevices fs a (dn # dns) d k =
              (Inr (Join (d_path d) (dn_name dn)),
               d\<lparr>d_skipped := take ?k (d_skipped d) @ drop (Suc ?k) (d_skipped d)\<rparr>, [])"
        using True same by (simp add: step)
      then show ?thesis using assms(4) True same unfolding sk_def k'_def by blast
    next
      case other: False
      have "scanDevices fs a (dn # dns) d k = scanDevices fs a dns d ?k"
        using True other by (simp add: step)
      then show ?thesis using assms(3) True other unfolding sk_def k'_def by blast
    qed
  next
    case miss: False
    show ?thesis
    proof (cases ?below)
      case True
      have "scanDevices fs a (dn # dns) d k = scanDevices fs a dns d ?k"
        by (simp only: step if_not_P [OF miss] if_P [OF True])
      then show ?thesis using assms(5) miss True unfolding sk_def k'_def by blast
    next
      case above: False
      have rd: "scanDevices fs a (dn # dns) d k =
         (case readAddress fs dn of
              Inl e \<Rightarrow> (Inl e, d, [(dn, Inl e)])
            | Inr devAddr \<Rightarrow>
                if devAddr = a
                then (Inr (Join (d_path d) (dn_name dn)), d\<lparr>d_n := dn_n dn\<rparr>, [(dn, Inr devAddr)])
                else (case scanDevices fs a dns
                             (d\<lparr>d_n := dn_n dn,
                                d_skipped := d_skipped d @ [\<lparr>se_i = dn_n dn, se_addr = devAddr\<rparr>]\<rparr>) ?k of
                        (r, d', lg) \<Rightarrow> (r, d', (dn, Inr devAddr) # lg)))"
        by (simp only: step if_not_P [OF miss] if_not_P [OF above])
      show ?thesis
      proof (cases "readAddress fs dn")
        case (Inl e)
        with rd have "scanDevices fs a (dn # dns) d k = (Inl e, d, [(dn, Inl e)])" by simp
        then show ?thesis using assms(6) [of e] miss above Inl unfolding sk_def k'_def by blast
      next
        case (Inr x)
        show ?thesis
        proof (cases "x = a")
          case True
          with rd Inr have "scanDevices fs a (dn # dns) d k =
              (Inr (Join (d_path d) (dn_name dn)), d\<lparr>d_n := dn_n dn\<rparr>, [(dn, Inr a)])" by simp
          then show ?thesis using assms(7) miss above Inr True unfolding sk_def k'_def by blast
        next
          case False
          obtain r d' lg where rec: "scanDevices fs a dns
               (d\<lparr>d_n := dn_n dn, d_skipped := d_skipped d @ [\<lparr>se_i = dn_n dn, se_addr = x\<rparr>]\<rparr>)
               ?k = (r, d', lg)"
            by (rule prod_cases3)
          with rd Inr False
          have "scanDevices fs a (dn # dns) d k = (r, d', (dn, Inr x) # lg)" by simp
          then show ?thesis using assms(8) [of x r d' lg] miss above Inr False rec
            unfolding sk_def k'_def by blast
        qed
      qed
    qed
  qed
qed


subsection \<open>What a scan can do\<close>

lemma readAttrAddr_Failing:
  "readAttrAddr Failing = Inl ReadError"
  by (simp add: readAttrAddr_def readAttrBytes_def)

lemma readAttrAddr_no_panic:
  "readAttrAddr f \<noteq> Inl Panic"
proof (cases f)
  case (Content c)
  show ?thesis
  proof (cases "63 < length (stripNewline (take 64 c))")
    case True
    then show ?thesis unfolding Content readAttrAddr_Content by (simp add: newAddress_Inl)
  next
    case False
    then show ?thesis unfolding Content readAttrAddr_Content by (simp add: newAddress_Inr)
  qed
next
  case Failing
  then show ?thesis by (simp add: readAttrAddr_Failing)
qed

lemma readAddress_no_panic:
  "readAddress fs dn \<noteq> Inl Panic"
  by (simp add: readAddress_def readAttrAddr_no_panic split: option.split)

text \<open>
  Induction over a scan: the outcome of a scan is built by the six ways one device is
  handled, and by the end of the list.
\<close>

lemma scanDevices_induct [consumes 1, case_names nil hit_other hit_match below read_error read_match read_other]:
  assumes run: "scanDevices fs a dns d k = (r, d', lg)"
    and nil: "\<And>d k. P [] d k (Inl NotFound) d []"
    and hit_other: "\<And>dn dns d k k' r d' lg.
          \<lbrakk>k' = cursorAt (d_skipped d) k (dn_n dn); k' < length (d_skipped d);
           se_i (d_skipped d ! k') = dn_n dn; se_addr (d_skipped d ! k') \<noteq> a;
           scanDevices fs a dns d k' = (r, d', lg); P dns d k' r d' lg\<rbrakk>
          \<Longrightarrow> P (dn # dns) d k r d' lg"
    and hit_match: "\<And>dn dns d k k'.
          \<lbrakk>k' = cursorAt (d_skipped d) k (dn_n dn); k' < length (d_skipped d);
           se_i (d_skipped d ! k') = dn_n dn; se_addr (d_skipped d ! k') = a\<rbrakk>
          \<Longrightarrow> P (dn # dns) d k (Inr (Join (d_path d) (dn_name dn)))
                (d\<lparr>d_skipped := take k' (d_skipped d) @ drop (Suc k') (d_skipped d)\<rparr>) []"
    and below: "\<And>dn dns d k k' r d' lg.
          \<lbrakk>k' = cursorAt (d_skipped d) k (dn_n dn);
           \<not> (k' < length (d_skipped d) \<and> se_i (d_skipped d ! k') = dn_n dn);
           0 \<le> d_n d; dn_n dn \<le> d_n d;
           scanDevices fs a dns d k' = (r, d', lg); P dns d k' r d' lg\<rbrakk>
          \<Longrightarrow> P (dn # dns) d k r d' lg"
    and read_error: "\<And>dn dns d k k' e.
          \<lbrakk>k' = cursorAt (d_skipped d) k (dn_n dn);
           \<not> (k' < length (d_skipped d) \<and> se_i (d_skipped d ! k') = dn_n dn);
           \<not> (0 \<le> d_n d \<and> dn_n dn \<le> d_n d); readAddress fs dn = Inl e\<rbrakk>
          \<Longrightarrow> P (dn # dns) d k (Inl e) d [(dn, Inl e)]"
    and read_match: "\<And>dn dns d k k'.
          \<lbrakk>k' = cursorAt (d_skipped d) k (dn_n dn);
           \<not> (k' < length (d_skipped d) \<and> se_i (d_skipped d ! k') = dn_n dn);
           \<not> (0 \<le> d_n d \<and> dn_n dn \<le> d_n d); readAddress fs dn = Inr a\<rbrakk>
          \<Longrightarrow> P (dn # dns) d k (Inr (Join (d_path d) (dn_name dn))) (d\<lparr>d_n := dn_n dn\<rparr>)
                [(dn, Inr a)]"
    and read_other: "\<And>dn dns d k k' x d2 r d' lg.
          \<lbrakk>k' = cursorAt (d_skipped d) k (dn_n dn);
           \<not> (k' < length (d_skipped d) \<and> se_i (d_skipped d ! k') = dn_n dn);
           \<not> (0 \<le> d_n d \<and> dn_n dn \<le> d_n d); readAddress fs dn = Inr x; x \<noteq> a;
           d2 = d\<lparr>d_n := dn_n dn, d_skipped := d_skipped d @ [\<lparr>se_i = dn_n dn, se_addr = x\<rparr>]\<rparr>;
           scanDevices fs a dns d2 k' = (r, d', lg); P dns d2 k' r d' lg\<rbrakk>
          \<Longrightarrow> P (dn # dns) d k r d' ((dn, Inr x) # lg)"
  shows "P dns d k r d' lg"
  using run
proof (induction dns arbitrary: d k r d' lg)
  case Nil
  then show ?case using nil by simp
next
  case (Cons dn dns)
  let ?k = "cursorAt (d_skipped d) k (dn_n dn)"
  show ?case
  proof (cases rule: scanDevices_cases [where d = d and k = k and dn = dn and a = a and fs = fs and dns = dns])
    case hit_other
    from hit_other(4) Cons.prems have rec: "scanDevices fs a dns d ?k = (r, d', lg)" by simp
    show ?thesis
      by (rule assms(3) [OF refl hit_other(1,2,3) rec Cons.IH [OF rec]])
  next
    case hit_match
    from hit_match(4) Cons.prems
    have res: "r = Inr (Join (d_path d) (dn_name dn))"
      "d' = d\<lparr>d_skipped := take ?k (d_skipped d) @ drop (Suc ?k) (d_skipped d)\<rparr>" "lg = []"
      by simp_all
    show ?thesis unfolding res
      by (rule assms(4) [OF refl hit_match(1,2,3)])
  next
    case below
    from below(4) Cons.prems have rec: "scanDevices fs a dns d ?k = (r, d', lg)" by simp
    show ?thesis
      by (rule assms(5) [OF refl below(1,2,3) rec Cons.IH [OF rec]])
  next
    case (read_error e)
    from read_error(4) Cons.prems
    have res: "r = Inl e" "d' = d" "lg = [(dn, Inl e)]" by simp_all
    show ?thesis unfolding res
      by (rule assms(6) [OF refl read_error(1,2,3)])
  next
    case read_match
    from read_match(4) Cons.prems
    have res: "r = Inr (Join (d_path d) (dn_name dn))" "d' = d\<lparr>d_n := dn_n dn\<rparr>"
      "lg = [(dn, Inr a)]" by simp_all
    show ?thesis unfolding res
      by (rule assms(7) [OF refl read_match(1,2,3)])
  next
    case (read_other x r1 d1 lg1)
    from read_other(6) Cons.prems
    have res: "r = r1" "d' = d1" "lg = (dn, Inr x) # lg1" by simp_all
    show ?thesis unfolding res
      by (rule assms(8) [OF refl read_other(1,2,3,4) refl read_other(5) Cons.IH [OF read_other(5)]])
  qed
qed

lemma scanDevices_no_panic:
  "fst (scanDevices fs a dns d k) \<noteq> Inl Panic"
proof -
  obtain r d' lg where run: "scanDevices fs a dns d k = (r, d', lg)"
    by (rule prod_cases3)
  from run have "r \<noteq> Inl Panic"
  proof (induction rule: scanDevices_induct)
    case (read_error dn dns d k k' e)
    then show ?case using readAddress_no_panic [of fs dn] by auto
  qed simp_all
  with run show ?thesis by simp
qed

lemma scanDevices_config:
  "scanDevices fs a dns d k = (r, d', lg) \<Longrightarrow> d_path d' = d_path d \<and> d_prefix d' = d_prefix d"
  by (induction rule: scanDevices_induct) simp_all

lemma scanDevices_returns_listed:
  "scanDevices fs a dns d k = (r, d', lg) \<Longrightarrow> r = Inr p \<Longrightarrow>
     \<exists>dn \<in> set dns. p = Join (d_path d) (dn_name dn)"
  by (induction rule: scanDevices_induct) auto

text \<open>
  The gate of the high-water mark: once \<open>d.n\<close> is not negative it never decreases, and
  a scan only reads devices whose number is above it.
\<close>

lemma scanDevices_gate:
  "scanDevices fs a dns d k = (r, d', lg) \<Longrightarrow> 0 \<le> d_n d \<Longrightarrow>
     d_n d \<le> d_n d' \<and> (\<forall>(dn, x) \<in> set lg. d_n d < dn_n dn)"
  by (induction rule: scanDevices_induct) auto


lemma scanDevices_after_read:
  "scanDevices fs a dns d k = (r, d', lg) \<Longrightarrow> lg = xs @ (dn, Inr x) # ys \<Longrightarrow> 0 \<le> dn_n dn \<Longrightarrow>
     dn_n dn \<le> d_n d' \<and> (\<forall>(dn', y) \<in> set ys. dn_n dn < dn_n dn')"
proof (induction arbitrary: xs rule: scanDevices_induct)
  case (read_other dn0 dns d k k' x0 d2 r d' lg)
  show ?case
  proof (cases xs)
    case Nil
    with read_other.prems have eq: "dn0 = dn" "ys = lg" by simp_all
    have "0 \<le> d_n d2" using read_other.hyps(6) read_other.prems(2) eq by simp
    from scanDevices_gate [OF read_other.hyps(7) this] show ?thesis
      using read_other.hyps(6) eq by simp
  next
    case (Cons z zs)
    with read_other.prems have "lg = zs @ (dn, Inr x) # ys" by simp
    from read_other.IH [OF this read_other.prems(2)] show ?thesis .
  qed
next
  case (read_match dn0 dns d k k')
  then show ?case by (cases xs) auto
next
  case (read_error dn0 dns d k k' e)
  then show ?case by (cases xs) auto
qed simp_all

lemma scanDevices_failure_state:
  "scanDevices fs a dns d k = (r, d', lg) \<Longrightarrow> r = Inl e \<Longrightarrow>
     d' = d\<lparr>d_n := (if recorded lg = [] then d_n d else se_i (last (recorded lg))),
            d_skipped := d_skipped d @ recorded lg\<rparr>"
  by (induction rule: scanDevices_induct) auto

lemma scanDevices_failing_read:
  "scanDevices fs a dns d k = (r, d', lg) \<Longrightarrow> r = Inl e \<Longrightarrow> e \<noteq> NotFound \<Longrightarrow>
     \<exists>dn. lg \<noteq> [] \<and> last lg = (dn, Inl e) \<and> readAddress fs dn = Inl e
          \<and> (0 \<le> dn_n dn \<longrightarrow> d_n d' < dn_n dn)"
  by (induction rule: scanDevices_induct) auto

subsection \<open>The order of the skip list is kept\<close>

lemma sorted_wrt_remove_nth:
  assumes "sorted_wrt P xs"
  shows "sorted_wrt P (take k xs @ drop (Suc k) xs)"
proof -
  from assms have "sorted_wrt P (take k xs @ drop k xs)" by simp
  then have cross: "\<forall>x \<in> set (take k xs). \<forall>y \<in> set (drop k xs). P x y"
    by (simp only: sorted_wrt_append) blast
  have "set (drop (Suc k) xs) \<subseteq> set (drop k xs)"
    by (rule set_drop_subset_set_drop) simp
  with cross have "\<forall>x \<in> set (take k xs). \<forall>y \<in> set (drop (Suc k) xs). P x y" by blast
  then show ?thesis using assms
    by (simp add: sorted_wrt_append sorted_wrt_take sorted_wrt_drop)
qed

lemma wellFormed_new:
  "wellFormed (newDeviceDir path prefix)"
  by (simp add: wellFormed_def newDeviceDir_def)

lemma wellFormed_remove:
  assumes "wellFormed d"
  shows "wellFormed (d\<lparr>d_skipped := take k (d_skipped d) @ drop (Suc k) (d_skipped d)\<rparr>)"
proof -
  have "set (take k (d_skipped d) @ drop (Suc k) (d_skipped d)) \<subseteq> set (d_skipped d)"
    using set_take_subset [of k "d_skipped d"] set_drop_subset [of "Suc k" "d_skipped d"] by auto
  then show ?thesis using assms
    unfolding wellFormed_def by (auto intro: sorted_wrt_remove_nth)
qed

lemma wellFormed_mark:
  assumes "wellFormed d" and "\<not> (0 \<le> d_n d \<and> m \<le> d_n d)"
  shows "wellFormed (d\<lparr>d_n := m\<rparr>)"
  using assms unfolding wellFormed_def by fastforce

lemma wellFormed_append:
  assumes "wellFormed d" and "\<not> (0 \<le> d_n d \<and> m \<le> d_n d)"
  shows "wellFormed (d\<lparr>d_n := m, d_skipped := d_skipped d @ [\<lparr>se_i = m, se_addr = x\<rparr>]\<rparr>)"
proof -
  have "entryOrder se \<lparr>se_i = m, se_addr = x\<rparr>" if "se \<in> set (d_skipped d)" for se
  proof (cases "0 \<le> se_i se")
    case True
    with that assms(1) have "se_i se \<le> d_n d" by (simp add: wellFormed_def)
    with True assms(2) show ?thesis by (simp add: entryOrder_def)
  next
    case False
    then show ?thesis by (simp add: entryOrder_def)
  qed
  moreover have "se_i se \<le> m" if "se \<in> set (d_skipped d)" "0 \<le> se_i se" for se
  proof -
    from that assms(1) have "se_i se \<le> d_n d" by (simp add: wellFormed_def)
    with that(2) assms(2) show ?thesis by simp
  qed
  ultimately show ?thesis using assms(1)
    by (auto simp: wellFormed_def sorted_wrt_append)
qed

lemma scanDevices_wellFormed:
  "scanDevices fs a dns d k = (r, d', lg) \<Longrightarrow> wellFormed d \<Longrightarrow> wellFormed d'"
proof (induction rule: scanDevices_induct)
  case (hit_match dn dns d k k')
  then show ?case by (simp add: wellFormed_remove)
next
  case (read_match dn dns d k k')
  then show ?case by (simp add: wellFormed_mark)
next
  case (read_other dn dns d k k' x d2 r d' lg)
  then show ?case by (simp add: wellFormed_append)
qed simp_all


subsection \<open>One call\<close>

lemma findByAddress_cases [case_names list_error scan]:
  obtains "readdirnames fs = None" and "findByAddress bits fs d a = (Inl ListError, d, [])"
  | dns where "deviceDir_list bits fs d = Inr dns"
      and "findByAddress bits fs d a = scanDevices fs a dns d 0"
proof (cases "readdirnames fs")
  case None
  then show ?thesis using that(1) by (simp add: findByAddress_def deviceDir_list_def)
next
  case (Some names)
  then show ?thesis using that(2) by (simp add: findByAddress_def deviceDir_list_def)
qed

lemma findByAddress_no_panic:
  "fst (findByAddress bits fs d a) \<noteq> Inl Panic"
  by (cases rule: findByAddress_cases [of fs bits d a]) (simp_all add: scanDevices_no_panic)

lemma findByAddress_config:
  "findByAddress bits fs d a = (r, d', lg) \<Longrightarrow> d_path d' = d_path d \<and> d_prefix d' = d_prefix d"
  by (cases rule: findByAddress_cases [of fs bits d a]) (auto dest: scanDevices_config)

lemma findByAddress_gate:
  "findByAddress bits fs d a = (r, d', lg) \<Longrightarrow> 0 \<le> d_n d \<Longrightarrow>
     d_n d \<le> d_n d' \<and> (\<forall>(dn, x) \<in> set lg. d_n d < dn_n dn)"
  by (cases rule: findByAddress_cases [of fs bits d a]) (auto dest: scanDevices_gate)

lemma findByAddress_after_read:
  "findByAddress bits fs d a = (r, d', lg) \<Longrightarrow> lg = xs @ (dn, Inr x) # ys \<Longrightarrow> 0 \<le> dn_n dn \<Longrightarrow>
     dn_n dn \<le> d_n d' \<and> (\<forall>(dn', y) \<in> set ys. dn_n dn < dn_n dn')"
proof (cases rule: findByAddress_cases [of fs bits d a])
  case list_error
  assume "findByAddress bits fs d a = (r, d', lg)" "lg = xs @ (dn, Inr x) # ys"
  with list_error show ?thesis by simp
next
  case (scan dns)
  assume "findByAddress bits fs d a = (r, d', lg)" "lg = xs @ (dn, Inr x) # ys" "0 \<le> dn_n dn"
  with scan show ?thesis using scanDevices_after_read [of fs a dns d 0 r d' lg xs dn x ys] by simp
qed

lemma findByAddress_wellFormed:
  "findByAddress bits fs d a = (r, d', lg) \<Longrightarrow> wellFormed d \<Longrightarrow> wellFormed d'"
  by (cases rule: findByAddress_cases [of fs bits d a]) (auto dest: scanDevices_wellFormed)

subsection \<open>Sequences of calls\<close>

lemma run_append:
  "run bits d (cs @ cs') = run bits d cs @ run bits (finalState bits d cs) cs'"
  by (induction cs arbitrary: d) (auto split: prod.splits)

lemma finalState_append:
  "finalState bits d (cs @ cs') = finalState bits (finalState bits d cs) cs'"
  by (induction cs arbitrary: d) auto

lemma length_run:
  "length (run bits d cs) = length cs"
  by (induction cs arbitrary: d) (auto split: prod.splits)

lemma run_nth:
  assumes "i < length cs"
  shows "run bits d cs ! i =
           findByAddress bits (fst (cs ! i)) (finalState bits d (take i cs)) (snd (cs ! i))"
  using assms
proof (induction cs arbitrary: d i)
  case Nil
  then show ?case by simp
next
  case (Cons c cs)
  obtain fs a where c: "c = (fs, a)" by (cases c)
  show ?case
  proof (cases i)
    case 0
    then show ?thesis by (simp add: c split: prod.splits)
  next
    case (Suc j)
    with Cons.prems have "j < length cs" by simp
    from Cons.IH [OF this] show ?thesis using Suc by (simp add: c split: prod.splits)
  qed
qed

lemma finalState_snoc:
  "finalState bits d (cs @ [(fs, a)]) = fst (snd (findByAddress bits fs (finalState bits d cs) a))"
  by (simp add: finalState_append)

lemma finalState_take_Suc:
  assumes "i < length cs"
  shows "finalState bits d (take (Suc i) cs) = fst (snd (run bits d cs ! i))"
proof -
  obtain fs a where c: "cs ! i = (fs, a)" by (cases "cs ! i")
  from assms have "take (Suc i) cs = take i cs @ [(fs, a)]"
    by (simp add: take_Suc_conv_app_nth c)
  then show ?thesis using assms by (simp add: finalState_snoc run_nth c)
qed

lemma finalState_wellFormed:
  "wellFormed d \<Longrightarrow> wellFormed (finalState bits d cs)"
proof (induction cs arbitrary: d)
  case Nil
  then show ?case by simp
next
  case (Cons c cs)
  obtain fs a where c: "c = (fs, a)" by (cases c)
  obtain r d' lg where f: "findByAddress bits fs d a = (r, d', lg)" by (rule prod_cases3)
  from findByAddress_wellFormed [OF f Cons.prems] have "wellFormed d'" .
  from Cons.IH [OF this] show ?case by (simp add: c f)
qed

lemma finalState_config:
  "d_path (finalState bits d cs) = d_path d \<and> d_prefix (finalState bits d cs) = d_prefix d"
proof (induction cs arbitrary: d)
  case Nil
  then show ?case by simp
next
  case (Cons c cs)
  obtain fs a where c: "c = (fs, a)" by (cases c)
  obtain r d' lg where f: "findByAddress bits fs d a = (r, d', lg)" by (rule prod_cases3)
  from findByAddress_config [OF f] Cons.IH [of d'] show ?case by (simp add: c f)
qed

lemma allReads_Cons:
  "findByAddress bits fs d a = (r, d', lg) \<Longrightarrow>
     allReads bits d ((fs, a) # cs) = lg @ allReads bits d' cs"
  by (simp add: allReads_def)

lemma allReads_gate:
  "0 \<le> d_n d \<Longrightarrow> \<forall>(dn, x) \<in> set (allReads bits d cs). d_n d < dn_n dn"
proof (induction cs arbitrary: d)
  case Nil
  then show ?case by (simp add: allReads_def)
next
  case (Cons c cs)
  obtain fs a where c: "c = (fs, a)" by (cases c)
  obtain r d' lg where f: "findByAddress bits fs d a = (r, d', lg)" by (rule prod_cases3)
  from findByAddress_gate [OF f Cons.prems]
  have g: "d_n d \<le> d_n d'" "\<forall>(dn, x) \<in> set lg. d_n d < dn_n dn" by simp_all
  with Cons.prems have "0 \<le> d_n d'" by simp
  from Cons.IH [OF this] g(1) have "\<forall>(dn, x) \<in> set (allReads bits d' cs). d_n d < dn_n dn"
    by fastforce
  with g(2) show ?case unfolding c allReads_Cons [OF f] by auto
qed


subsection \<open>Evaluation of closed calls\<close>

lemmas eval_list =
  findByAddress_def deviceDir_list_def parseDeviceName_def HasPrefix_def Atoi_def isDigit_def
  zeroDeviceName_def newDeviceDir_def classDir_def Let_def

lemmas eval_scan =
  scanDevices_Cons cursorAt_def readAddress_def readAttrAddr_Content stripNewline_def
  addrOf_def newAddress_Inr

subsection \<open>Claims on the address codec\<close>

lemma stripNewline_snoc:
  "stripNewline (s @ [CHR 0x0A]) = s"
  by (simp add: stripNewline_def)

lemma stripNewline_bare:
  "s = [] \<or> last s \<noteq> CHR 0x0A \<Longrightarrow> stripNewline s = s"
  by (auto simp: stripNewline_def)

lemma stripNewline_long:
  "63 < length (stripNewline (take 64 c)) \<longleftrightarrow> 64 \<le> length c \<and> c ! 63 \<noteq> CHR 0x0A"
proof (cases "64 \<le> length c")
  case True
  then have len: "length (take 64 c) = 64" by simp
  then have ne: "take 64 c \<noteq> []" by auto
  have "last (take 64 c) = take 64 c ! 63"
    using len ne by (simp add: last_conv_nth del: length_take)
  also have "\<dots> = c ! 63" by simp
  finally have "last (take 64 c) = c ! 63" .
  then show ?thesis using True len ne by (simp add: stripNewline_def del: length_take)
next
  case False
  then have "length (take 64 c) < 64" by simp
  moreover have "length (stripNewline (take 64 c)) \<le> length (take 64 c)"
    by (simp add: stripNewline_def del: length_take)
  ultimately show ?thesis using False by linarith
qed

lemma newAddress_TooLong_iff:
  "newAddress s = Inl TooLong \<longleftrightarrow> 63 < length s"
  by (cases "63 < length s") (simp_all add: newAddress_Inl newAddress_Inr)

lemma newAddress_inj:
  assumes "length s \<le> 63" and "length t \<le> 63"
  shows "newAddress s = newAddress t \<longleftrightarrow> s = t"
proof
  assume eq: "newAddress s = newAddress t"
  from assms have s: "newAddress s = Inr (char_of (length s) # s @ replicate (63 - length s) (char_of (0::nat)))"
    and t: "newAddress t = Inr (char_of (length t) # t @ replicate (63 - length t) (char_of (0::nat)))"
    by (simp_all only: newAddress_Inr)
  from eq s t have c: "char_of (length s) = char_of (length t)"
    and app: "s @ replicate (63 - length s) (char_of (0::nat)) = t @ replicate (63 - length t) (char_of (0::nat))"
    by simp_all
  from c have "(of_char (char_of (length s)) :: nat) = of_char (char_of (length t))"
    by (simp only:)
  with assms have len: "length s = length t" by simp
  from app len show "s = t" by simp
qed simp

text \<open>
  C10, as amended. \<open>readAttrAddr\<close> on a file gives what \<open>newAddress\<close> gives on the first
  64 bytes of the file without one trailing newline. So, for a string \<open>s\<close> of at most 63
  bytes: the file \<open>s\<close> followed by a newline reads as \<open>newAddress s\<close>; the file \<open>s\<close>
  alone reads as \<open>newAddress s\<close> when \<open>s\<close> does not itself end in a newline. And the
  read fails with "address too long" exactly when the file has at least 64 bytes and its
  64th byte is not a newline. The value of \<open>newAddress s\<close> is the length byte, the bytes
  of \<open>s\<close>, and zero bytes up to 64; so two strings of at most 63 bytes have the same
  address exactly when they are the same string.
\<close>

theorem readAttrAddr_newAddress:
  "(length s \<le> 63 \<longrightarrow> readAttrAddr (Content (s @ [CHR 0x0A])) = newAddress s)
   \<and> (length s \<le> 63 \<and> (s = [] \<or> last s \<noteq> CHR 0x0A) \<longrightarrow> readAttrAddr (Content s) = newAddress s)
   \<and> (readAttrAddr (Content c) = Inl TooLong \<longleftrightarrow> 64 \<le> length c \<and> c ! 63 \<noteq> CHR 0x0A)
   \<and> readAttrAddr (Content c) = newAddress (stripNewline (take 64 c))
   \<and> (length s \<le> 63 \<longrightarrow>
        newAddress s = Inr (char_of (length s) # s @ replicate (63 - length s) (char_of (0::nat))))
   \<and> (length s \<le> 63 \<and> length t \<le> 63 \<longrightarrow> (newAddress s = newAddress t \<longleftrightarrow> s = t))"
proof (intro conjI impI)
  assume "length s \<le> 63"
  then have "take 64 (s @ [CHR 0x0A]) = s @ [CHR 0x0A]" by simp
  then show "readAttrAddr (Content (s @ [CHR 0x0A])) = newAddress s"
    by (simp only: readAttrAddr_Content stripNewline_snoc)
next
  assume a: "length s \<le> 63 \<and> (s = [] \<or> last s \<noteq> CHR 0x0A)"
  then have "take 64 s = s" by simp
  moreover from a have "stripNewline s = s" by (simp add: stripNewline_bare)
  ultimately show "readAttrAddr (Content s) = newAddress s"
    by (simp only: readAttrAddr_Content)
next
  show "readAttrAddr (Content c) = Inl TooLong \<longleftrightarrow> 64 \<le> length c \<and> c ! 63 \<noteq> CHR 0x0A"
    by (simp only: readAttrAddr_Content newAddress_TooLong_iff stripNewline_long)
next
  show "readAttrAddr (Content c) = newAddress (stripNewline (take 64 c))"
    by (rule readAttrAddr_Content)
next
  assume "length s \<le> 63"
  then show "newAddress s = Inr (char_of (length s) # s @ replicate (63 - length s) (char_of (0::nat)))"
    by (rule newAddress_Inr)
next
  assume "length s \<le> 63 \<and> length t \<le> 63"
  then show "newAddress s = newAddress t \<longleftrightarrow> s = t"
    by (simp only: newAddress_inj)
qed

theorem readAttrAddr_newAddress_witness:
  "length ''iface:S3'' \<le> 63
   \<and> readAttrAddr (Content (''iface:S3'' @ [CHR 0x0A])) = newAddress ''iface:S3''
   \<and> last ''iface:S3'' \<noteq> CHR 0x0A
   \<and> readAttrAddr (Content ''iface:S3'') = newAddress ''iface:S3''
   \<and> length ''iface:S4'' \<le> 63
   \<and> newAddress ''iface:S3'' \<noteq> newAddress ''iface:S4''"
  using readAttrAddr_newAddress [of "''iface:S3''" "''iface:S3''" "''iface:S4''"] by auto

text \<open>
  C10 as stated fails twice. The two-byte file \<open>a\<close>, newline is, bare, a content of at
  most 63 bytes, and it does not read as \<open>newAddress\<close> of these two bytes. The file of 63
  bytes \<open>a\<close> and two newlines is, without its trailing newline, 64 bytes long, and it
  reads, without an error, as the address of the 63 bytes \<open>a\<close>.
\<close>

theorem readAttrAddr_counterexample:
  "readAttrAddr (Content [CHR ''a'', CHR 0x0A]) \<noteq> newAddress [CHR ''a'', CHR 0x0A]
   \<and> length (replicate 63 (CHR ''a'') @ [CHR 0x0A]) = 64
   \<and> readAttrAddr (Content (replicate 63 (CHR ''a'') @ [CHR 0x0A, CHR 0x0A]))
       = Inr (char_of (63::nat) # replicate 63 (CHR ''a''))"
proof -
  have "take 64 (replicate 63 (CHR ''a'') @ [CHR 0x0A, CHR 0x0A]) = replicate 63 (CHR ''a'') @ [CHR 0x0A]"
    by simp
  then have "readAttrAddr (Content (replicate 63 (CHR ''a'') @ [CHR 0x0A, CHR 0x0A]))
               = newAddress (replicate 63 (CHR ''a''))"
    by (simp only: readAttrAddr_Content stripNewline_snoc)
  moreover have "readAttrAddr (Content [CHR ''a'', CHR 0x0A]) \<noteq> newAddress [CHR ''a'', CHR 0x0A]"
    by (simp add: readAttrAddr_Content stripNewline_def newAddress_Inr)
  ultimately show ?thesis by (simp add: newAddress_Inr)
qed


subsection \<open>The state after a call that fails\<close>

lemma findByAddress_failure_state:
  assumes "findByAddress bits fs d a = (Inl e, d', lg)"
  shows "d' = d\<lparr>d_n := (if recorded lg = [] then d_n d else se_i (last (recorded lg))),
                d_skipped := d_skipped d @ recorded lg\<rparr>"
proof (cases rule: findByAddress_cases [of fs bits d a])
  case list_error
  with assms show ?thesis by simp
next
  case (scan dns)
  with assms have "scanDevices fs a dns d 0 = (Inl e, d', lg)" by simp
  from scanDevices_failure_state [OF this refl] show ?thesis .
qed

lemma findByAddress_failing_read:
  assumes "findByAddress bits fs d a = (Inl e, d', lg)" and "e \<noteq> NotFound" and "e \<noteq> ListError"
  shows "\<exists>dn. lg \<noteq> [] \<and> last lg = (dn, Inl e) \<and> readAddress fs dn = Inl e
              \<and> (0 \<le> dn_n dn \<longrightarrow> d_n d' < dn_n dn)"
proof (cases rule: findByAddress_cases [of fs bits d a])
  case list_error
  with assms show ?thesis by simp
next
  case (scan dns)
  with assms have "scanDevices fs a dns d 0 = (Inl e, d', lg)" by simp
  from scanDevices_failing_read [OF this refl assms(2)] show ?thesis .
qed

subsection \<open>Claims on the listing\<close>

lemma isDigit_not_sign:
  "isDigit c \<Longrightarrow> c \<noteq> CHR ''-'' \<and> c \<noteq> CHR ''+''"
  by (auto simp: isDigit_def)

lemma Atoi_Some_iff:
  "Atoi bits s = Some v \<longleftrightarrow>
     (\<exists>sign ds. s = sign @ ds \<and> (sign = [] \<or> sign = ''+'' \<or> sign = ''-'') \<and> ds \<noteq> []
        \<and> list_all isDigit ds
        \<and> v = (if sign = ''-'' then - decimal 0 ds else decimal 0 ds)
        \<and> - (2 ^ (bits - 1)) \<le> v \<and> v < 2 ^ (bits - 1))"
  (is "?lhs \<longleftrightarrow> ?rhs")
proof
  assume l: ?lhs
  show ?rhs
  proof (cases "s \<noteq> [] \<and> (hd s = CHR ''-'' \<or> hd s = CHR ''+'')")
    case True
    then obtain c ds where s: "s = c # ds" and c: "c = CHR ''-'' \<or> c = CHR ''+''"
      by (cases s) auto
    from l s c show ?thesis
      by (intro exI [of _ "[c]"] exI [of _ ds])
         (auto simp: Atoi_def Let_def split: if_splits)
  next
    case False
    with l show ?thesis
      by (intro exI [of _ "[]"] exI [of _ s])
         (auto simp: Atoi_def Let_def split: if_splits)
  qed
next
  assume ?rhs
  then obtain sign ds where s: "s = sign @ ds"
    and sign: "sign = [] \<or> sign = ''+'' \<or> sign = ''-''"
    and ds: "ds \<noteq> []" "list_all isDigit ds"
    and v: "v = (if sign = ''-'' then - decimal 0 ds else decimal 0 ds)"
    and fit: "- (2 ^ (bits - 1)) \<le> v" "v < 2 ^ (bits - 1)"
    by blast
  from ds obtain c cs where dcs: "ds = c # cs" and "isDigit c" by (cases ds) auto
  then have nosign: "hd ds \<noteq> CHR ''-''" "hd ds \<noteq> CHR ''+''"
    using isDigit_not_sign [of c] by simp_all
  from sign show ?lhs
  proof (elim disjE)
    assume "sign = []"
    with s ds nosign v fit show ?thesis by (simp add: Atoi_def Let_def)
  next
    assume "sign = ''+''"
    with s ds v fit show ?thesis by (simp add: Atoi_def Let_def)
  next
    assume "sign = ''-''"
    with s ds v fit show ?thesis by (simp add: Atoi_def Let_def)
  qed
qed

lemma HasPrefix_iff:
  "HasPrefix name prefix \<longleftrightarrow> (\<exists>rest. name = prefix @ rest)"
proof
  assume "HasPrefix name prefix"
  then have "name = prefix @ drop (length prefix) name"
    by (metis HasPrefix_def append_take_drop_id)
  then show "\<exists>rest. name = prefix @ rest" ..
next
  assume "\<exists>rest. name = prefix @ rest"
  then show "HasPrefix name prefix" by (auto simp: HasPrefix_def)
qed

lemma parseDeviceName_nonzero_iff:
  "parseDeviceName bits name prefix \<noteq> zeroDeviceName \<longleftrightarrow>
     HasPrefix name prefix \<and> Atoi bits (drop (length prefix) name) \<noteq> None"
proof -
  have "name \<noteq> []" if "Atoi bits (drop (length prefix) name) = Some v" for v
  proof
    assume "name = []"
    with that show False by (simp add: Atoi_def)
  qed
  then show ?thesis
    by (auto simp: parseDeviceName_def zeroDeviceName_def split: option.splits)
qed

lemma parseDeviceName_name:
  "parseDeviceName bits name prefix \<noteq> zeroDeviceName \<Longrightarrow>
     dn_name (parseDeviceName bits name prefix) = name"
  by (auto simp: parseDeviceName_def split: option.splits if_splits)

lemma deviceDir_list_Some:
  "readdirnames fs = Some names \<Longrightarrow>
     deviceDir_list bits fs d =
       Inr (sort_key dn_n (filter (\<lambda>dn. dn \<noteq> zeroDeviceName)
              (map (\<lambda>name. parseDeviceName bits name (d_prefix d)) names)))"
  by (simp add: deviceDir_list_def)

lemma deviceDir_list_set:
  assumes "deviceDir_list bits fs d = Inr dns"
  shows "\<exists>names. readdirnames fs = Some names
           \<and> set dns = {dn. dn \<noteq> zeroDeviceName \<and> (\<exists>name \<in> set names. dn = parseDeviceName bits name (d_prefix d))}"
proof (cases "readdirnames fs")
  case None
  with assms show ?thesis by (simp add: deviceDir_list_def)
next
  case (Some names)
  with assms have "dns = sort_key dn_n (filter (\<lambda>dn. dn \<noteq> zeroDeviceName)
              (map (\<lambda>name. parseDeviceName bits name (d_prefix d)) names))"
    by (simp add: deviceDir_list_def)
  then have "set dns = {dn. dn \<noteq> zeroDeviceName \<and> (\<exists>name \<in> set names. dn = parseDeviceName bits name (d_prefix d))}"
    by auto
  with Some show ?thesis by blast
qed

lemma deviceDir_list_sorted:
  "deviceDir_list bits fs d = Inr dns \<Longrightarrow> sorted (map dn_n dns)"
  by (auto simp: deviceDir_list_def split: option.splits)

lemma deviceDir_list_parsed:
  assumes "deviceDir_list bits fs d = Inr dns" and "dn \<in> set dns"
  shows "dn \<noteq> zeroDeviceName \<and> parseDeviceName bits (dn_name dn) (d_prefix d) = dn"
proof -
  from deviceDir_list_set [OF assms(1)] assms(2)
  obtain name where "dn \<noteq> zeroDeviceName" "dn = parseDeviceName bits name (d_prefix d)"
    by blast
  then show ?thesis using parseDeviceName_name [of bits name "d_prefix d"] by simp
qed

lemma findByAddress_nothing_listed:
  assumes "readdirnames fs = Some names"
    and "\<forall>name \<in> set names. parseDeviceName bits name (d_prefix d) = zeroDeviceName"
  shows "findByAddress bits fs d a = (Inl NotFound, d, [])"
proof -
  from assms(2)
  have "filter (\<lambda>dn. dn \<noteq> zeroDeviceName)
          (map (\<lambda>name. parseDeviceName bits name (d_prefix d)) names) = []"
    by (simp add: filter_empty_conv)
  with assms(1) show ?thesis
    by (simp add: findByAddress_def deviceDir_list_def)
qed

lemma parseDeviceName_kept_iff:
  "parseDeviceName bits name prefix \<noteq> zeroDeviceName \<longleftrightarrow>
      (\<exists>sign ds. name = prefix @ sign @ ds \<and> (sign = [] \<or> sign = ''+'' \<or> sign = ''-'')
         \<and> ds \<noteq> [] \<and> list_all isDigit ds
         \<and> - (2 ^ (bits - 1)) \<le> (if sign = ''-'' then - decimal 0 ds else decimal 0 ds)
         \<and> (if sign = ''-'' then - decimal 0 ds else decimal 0 ds) < 2 ^ (bits - 1))"
  (is "?kept \<longleftrightarrow> ?form")
proof
  assume ?kept
  then have pre: "HasPrefix name prefix"
    and "\<exists>v. Atoi bits (drop (length prefix) name) = Some v"
    by (simp_all add: parseDeviceName_nonzero_iff)
  then obtain v where "Atoi bits (drop (length prefix) name) = Some v" by blast
  then obtain sign ds where "drop (length prefix) name = sign @ ds"
    and rest: "sign = [] \<or> sign = ''+'' \<or> sign = ''-''" "ds \<noteq> []" "list_all isDigit ds"
      "v = (if sign = ''-'' then - decimal 0 ds else decimal 0 ds)"
      "- (2 ^ (bits - 1)) \<le> v" "v < 2 ^ (bits - 1)"
    unfolding Atoi_Some_iff by blast
  moreover from pre have "name = prefix @ drop (length prefix) name"
    by (metis HasPrefix_def append_take_drop_id)
  ultimately have "name = prefix @ sign @ ds" by simp
  with rest show ?form by blast
next
  assume ?form
  then obtain sign ds where name: "name = prefix @ sign @ ds"
    and rest: "sign = [] \<or> sign = ''+'' \<or> sign = ''-''" "ds \<noteq> []" "list_all isDigit ds"
      "- (2 ^ (bits - 1)) \<le> (if sign = ''-'' then - decimal 0 ds else decimal 0 ds)"
      "(if sign = ''-'' then - decimal 0 ds else decimal 0 ds) < 2 ^ (bits - 1)"
    by blast
  from name have "HasPrefix name prefix" by (auto simp: HasPrefix_iff)
  moreover from name have "drop (length prefix) name = sign @ ds" by simp
  with rest have "Atoi bits (drop (length prefix) name)
                    = Some (if sign = ''-'' then - decimal 0 ds else decimal 0 ds)"
    unfolding Atoi_Some_iff by blast
  ultimately show ?kept by (simp add: parseDeviceName_nonzero_iff)
qed

lemma decimal_nonneg:
  "list_all isDigit ds \<Longrightarrow> 0 \<le> acc \<Longrightarrow> 0 \<le> decimal acc ds"
proof (induction ds arbitrary: acc)
  case Nil
  then show ?case by simp
next
  case (Cons c cs)
  from Cons.prems(1) have "(48::int) \<le> of_char c"
    by (simp add: isDigit_def) (metis of_nat_le_iff of_nat_numeral of_nat_of_char)
  with Cons.prems(2) have "0 \<le> acc * 10 + (of_char c - 48)" by simp
  with Cons.IH Cons.prems(1) show ?case by simp
qed

lemma parseDeviceName_digits:
  assumes "ds \<noteq> []" and "list_all isDigit ds" and "decimal 0 ds < 2 ^ (bits - 1)"
  shows "parseDeviceName bits (prefix @ ds) prefix = \<lparr>dn_name = prefix @ ds, dn_n = decimal 0 ds\<rparr>"
proof -
  from assms(2) have nn: "0 \<le> decimal 0 ds" by (simp add: decimal_nonneg)
  have "- (2 ^ (bits - 1)) \<le> (0::int)" by simp
  with nn have lo: "- (2 ^ (bits - 1)) \<le> decimal 0 ds" by linarith
  from assms(1,2) obtain c cs where "ds = c # cs" "isDigit c" by (cases ds) auto
  then have "hd ds \<noteq> CHR ''-''" "hd ds \<noteq> CHR ''+''"
    using isDigit_not_sign [of c] by simp_all
  with assms lo have "Atoi bits ds = Some (decimal 0 ds)"
    by (simp add: Atoi_def Let_def)
  then show ?thesis
    by (simp add: parseDeviceName_def HasPrefix_def)
qed

text \<open>
  C5, as amended. The listing keeps every entry whose name is the prefix followed by one
  or more decimal digits whose value fits \<open>int\<close>, with that value as its number. It
  drops every entry whose name is not the prefix, then an optional sign, then one or
  more decimal digits whose value, with the sign, fits \<open>int\<close>. The devices listed are
  the parses of the names kept. A call on a directory none of whose entries is kept
  returns "not found", reads nothing and leaves the \<open>deviceDir\<close> as it was.
\<close>

theorem listing_keeps:
  "(ds \<noteq> [] \<and> list_all isDigit ds \<and> decimal 0 ds < 2 ^ (bits - 1) \<longrightarrow>
      parseDeviceName bits (prefix @ ds) prefix = \<lparr>dn_name = prefix @ ds, dn_n = decimal 0 ds\<rparr>
      \<and> parseDeviceName bits (prefix @ ds) prefix \<noteq> zeroDeviceName)
   \<and> (parseDeviceName bits name prefix \<noteq> zeroDeviceName \<longrightarrow>
      (\<exists>sign ds. name = prefix @ sign @ ds \<and> (sign = [] \<or> sign = ''+'' \<or> sign = ''-'')
         \<and> ds \<noteq> [] \<and> list_all isDigit ds
         \<and> - (2 ^ (bits - 1)) \<le> (if sign = ''-'' then - decimal 0 ds else decimal 0 ds)
         \<and> (if sign = ''-'' then - decimal 0 ds else decimal 0 ds) < 2 ^ (bits - 1)))
   \<and> (readdirnames fs = Some names \<longrightarrow>
        (\<exists>dns. deviceDir_list bits fs d = Inr dns
           \<and> set dns = {dn. dn \<noteq> zeroDeviceName
                          \<and> (\<exists>name \<in> set names. dn = parseDeviceName bits name (d_prefix d))}))
   \<and> (readdirnames fs = Some names
        \<and> (\<forall>name \<in> set names. parseDeviceName bits name (d_prefix d) = zeroDeviceName)
        \<longrightarrow> findByAddress bits fs d a = (Inl NotFound, d, []))"
proof (intro conjI impI)
  assume ds: "ds \<noteq> [] \<and> list_all isDigit ds \<and> decimal 0 ds < 2 ^ (bits - 1)"
  then show eq: "parseDeviceName bits (prefix @ ds) prefix
                   = \<lparr>dn_name = prefix @ ds, dn_n = decimal 0 ds\<rparr>"
    by (simp add: parseDeviceName_digits)
  from ds have "prefix @ ds \<noteq> []" by simp
  then show "parseDeviceName bits (prefix @ ds) prefix \<noteq> zeroDeviceName"
    unfolding eq by (simp add: zeroDeviceName_def)
next
  assume "parseDeviceName bits name prefix \<noteq> zeroDeviceName"
  then show "\<exists>sign ds. name = prefix @ sign @ ds \<and> (sign = [] \<or> sign = ''+'' \<or> sign = ''-'')
         \<and> ds \<noteq> [] \<and> list_all isDigit ds
         \<and> - (2 ^ (bits - 1)) \<le> (if sign = ''-'' then - decimal 0 ds else decimal 0 ds)
         \<and> (if sign = ''-'' then - decimal 0 ds else decimal 0 ds) < 2 ^ (bits - 1)"
    by (simp only: parseDeviceName_kept_iff)
next
  assume "readdirnames fs = Some names"
  then show "\<exists>dns. deviceDir_list bits fs d = Inr dns
           \<and> set dns = {dn. dn \<noteq> zeroDeviceName
                          \<and> (\<exists>name \<in> set names. dn = parseDeviceName bits name (d_prefix d))}"
    using deviceDir_list_set [of bits fs d] by (auto simp: deviceDir_list_Some)
next
  assume "readdirnames fs = Some names
        \<and> (\<forall>name \<in> set names. parseDeviceName bits name (d_prefix d) = zeroDeviceName)"
  then show "findByAddress bits fs d a = (Inl NotFound, d, [])"
    using findByAddress_nothing_listed by blast
qed

text \<open>
  A witness: the directory of the test \<open>SkipsNotMatching\<close> holds a name with another
  prefix and a name whose suffix is not a number.
\<close>

theorem listing_keeps_witness:
  "readdirnames (classDir [(''bacon0'', ''iface:S3'' @ [CHR 0x0A]), (''sensorX'', ''iface:S3'' @ [CHR 0x0A])])
     = Some [''bacon0'', ''sensorX'']
   \<and> parseDeviceName 64 ''bacon0'' ''sensor'' = zeroDeviceName
   \<and> parseDeviceName 64 ''sensorX'' ''sensor'' = zeroDeviceName
   \<and> parseDeviceName 64 ''sensor12'' ''sensor'' = \<lparr>dn_name = ''sensor12'', dn_n = 12\<rparr>
   \<and> findByAddress 64
        (classDir [(''bacon0'', ''iface:S3'' @ [CHR 0x0A]), (''sensorX'', ''iface:S3'' @ [CHR 0x0A])])
        (newDeviceDir ''/sys/class/lego-sensor'' ''sensor'') (addrOf ''iface:S3'')
       = (Inl NotFound, newDeviceDir ''/sys/class/lego-sensor'' ''sensor'', [])"
proof -
  let ?fs = "classDir [(''bacon0'', ''iface:S3'' @ [CHR 0x0A]), (''sensorX'', ''iface:S3'' @ [CHR 0x0A])]"
  let ?d = "newDeviceDir ''/sys/class/lego-sensor'' ''sensor''"
  have names: "readdirnames ?fs = Some [''bacon0'', ''sensorX'']"
    by (simp add: classDir_def)
  have none: "parseDeviceName 64 ''bacon0'' ''sensor'' = zeroDeviceName"
    "parseDeviceName 64 ''sensorX'' ''sensor'' = zeroDeviceName"
    by (simp_all add: eval_list)
  have one: "parseDeviceName 64 ''sensor12'' ''sensor'' = \<lparr>dn_name = ''sensor12'', dn_n = 12\<rparr>"
    by (simp add: eval_list)
  have "\<forall>name \<in> set [''bacon0'', ''sensorX'']. parseDeviceName 64 name (d_prefix ?d) = zeroDeviceName"
    using none by (simp add: newDeviceDir_def)
  with names listing_keeps [of "''12''" 64 "''sensor''" "''sensor12''" ?fs "[''bacon0'', ''sensorX'']" ?d "addrOf ''iface:S3''"]
  have "findByAddress 64 ?fs ?d (addrOf ''iface:S3'') = (Inl NotFound, ?d, [])"
    by blast
  with names none one show ?thesis by blast
qed

text \<open>
  C5 as stated fails in both directions. A sign after the prefix is not a digit, and the
  entry is kept, with a negative number for \<open>-\<close>. A name that is the prefix followed by
  digits only is dropped when the number does not fit \<open>int\<close> (here \<open>2^63\<close>, and \<open>2^31\<close>
  where \<open>int\<close> has 32 bits).
\<close>

theorem listing_counterexample:
  "parseDeviceName 64 ''sensor-1'' ''sensor'' = \<lparr>dn_name = ''sensor-1'', dn_n = - 1\<rparr>
   \<and> parseDeviceName 64 ''sensor-1'' ''sensor'' \<noteq> zeroDeviceName
   \<and> parseDeviceName 64 ''sensor+1'' ''sensor'' = \<lparr>dn_name = ''sensor+1'', dn_n = 1\<rparr>
   \<and> parseDeviceName 64 ''sensor9223372036854775808'' ''sensor'' = zeroDeviceName
   \<and> parseDeviceName 32 ''sensor2147483648'' ''sensor'' = zeroDeviceName"
  by (simp add: eval_list)

subsection \<open>Negative device numbers\<close>

text \<open>
  C1 fails on the code. The class directory holds the one entry \<open>port-1\<close>, which
  \<open>parseDeviceName\<close> keeps as device number \<open>-1\<close>, with address \<open>in1\<close>. Two calls for
  \<open>in1\<close> both return the path of \<open>port-1\<close>: after the first call \<open>d.n\<close> is \<open>-1\<close>, the
  value that stands for "nothing scanned yet", so the test \<open>d.n >= 0\<close> lets the second
  call read and return the device again.
\<close>

theorem double_claim_negative_number:
  "run 64 (newDeviceDir ''/sys/class/lego-port'' ''port'')
     [(classDir [(''port-1'', ''in1'' @ [CHR 0x0A])], addrOf ''in1''),
      (classDir [(''port-1'', ''in1'' @ [CHR 0x0A])], addrOf ''in1'')]
   = [(Inr (Join ''/sys/class/lego-port'' ''port-1''),
       \<lparr>d_path = ''/sys/class/lego-port'', d_prefix = ''port'', d_n = - 1, d_skipped = []\<rparr>,
       [(\<lparr>dn_name = ''port-1'', dn_n = - 1\<rparr>, Inr (addrOf ''in1''))]),
      (Inr (Join ''/sys/class/lego-port'' ''port-1''),
       \<lparr>d_path = ''/sys/class/lego-port'', d_prefix = ''port'', d_n = - 1, d_skipped = []\<rparr>,
       [(\<lparr>dn_name = ''port-1'', dn_n = - 1\<rparr>, Inr (addrOf ''in1''))])]
   \<and> returnedSlot 64 ''port'' (Inr (Join ''/sys/class/lego-port'' ''port-1'')) = Some (- 1)"
  by (simp add: eval_list eval_scan returnedSlot_def slotOf_def)

text \<open>
  C8 fails on the code. The first call finds \<open>sensor-5\<close> and records it; before the
  second call \<open>sensor-7\<close> appears. \<open>d.n\<close> is \<open>-5\<close>, below zero, so the second call reads
  \<open>sensor-7\<close> and appends it after the entry of \<open>-5\<close>: the skip list is no longer in
  ascending order, and the entry appended is below an entry already there.
\<close>

theorem skip_list_unsorted_negative_numbers:
  "d_skipped (finalState 64 (newDeviceDir ''/sys/class/lego-sensor'' ''sensor'')
     [(classDir [(''sensor-5'', ''iface:S3'' @ [CHR 0x0A])], addrOf ''iface:S1''),
      (classDir [(''sensor-5'', ''iface:S3'' @ [CHR 0x0A]), (''sensor-7'', ''iface:S2'' @ [CHR 0x0A])],
       addrOf ''iface:S1'')])
   = [\<lparr>se_i = - 5, se_addr = addrOf ''iface:S3''\<rparr>, \<lparr>se_i = - 7, se_addr = addrOf ''iface:S2''\<rparr>]
   \<and> \<not> sorted (map se_i [\<lparr>se_i = - 5, se_addr = addrOf ''iface:S3''\<rparr>,
                          \<lparr>se_i = - 7, se_addr = addrOf ''iface:S2''\<rparr>])"
  by (simp add: eval_list eval_scan)

subsection \<open>Devices whose number is not negative\<close>

text \<open>
  What the two theorems above break holds for every device number that is not negative,
  in every state that a \<open>deviceDir\<close> can reach.
\<close>

lemma nonneg_entry_unique:
  assumes "sorted_wrt entryOrder sk" and "k < length sk" and "0 \<le> se_i (sk ! k)"
  shows "se_i (sk ! k) \<notin> se_i ` set (take k sk @ drop (Suc k) sk)"
proof
  assume "se_i (sk ! k) \<in> se_i ` set (take k sk @ drop (Suc k) sk)"
  then obtain se where "se \<in> set (take k sk @ drop (Suc k) sk)"
    and eq: "se_i se = se_i (sk ! k)" by (metis imageE)
  then have se: "se \<in> set (take k sk) \<or> se \<in> set (drop (Suc k) sk)" by simp
  from se show False
  proof
    assume "se \<in> set (take k sk)"
    then obtain j where "j < k" "se = sk ! j"
      using assms(2) by (auto simp: in_set_conv_nth)
    with assms(1,2) have "entryOrder se (sk ! k)"
      by (simp add: sorted_wrt_iff_nth_less)
    with assms(3) eq show False by (simp add: entryOrder_def)
  next
    assume "se \<in> set (drop (Suc k) sk)"
    then obtain j where "j < length sk - Suc k" "se = sk ! (Suc k + j)"
      by (auto simp: in_set_conv_nth)
    with assms(1,2) have "entryOrder (sk ! k) se"
      by (simp add: sorted_wrt_iff_nth_less)
    with assms(3) eq show False by (simp add: entryOrder_def)
  qed
qed

lemma scanDevices_claims:
  "scanDevices fs a dns d k = (r, d', lg) \<Longrightarrow> wellFormed d \<Longrightarrow> r = Inr p \<Longrightarrow>
     \<exists>dn \<in> set dns. p = Join (d_path d) (dn_name dn)
        \<and> (0 \<le> dn_n dn \<longrightarrow> dn_n dn \<le> d_n d' \<and> dn_n dn \<notin> se_i ` set (d_skipped d'))"
proof (induction rule: scanDevices_induct)
  case (hit_match dn dns d k k')
  have mem: "d_skipped d ! k' \<in> set (d_skipped d)"
    using hit_match by simp
  have "0 \<le> dn_n dn \<longrightarrow> dn_n dn \<le> d_n d"
    using hit_match(3,5) mem unfolding wellFormed_def by metis
  moreover have "0 \<le> dn_n dn \<longrightarrow>
      dn_n dn \<notin> se_i ` set (take k' (d_skipped d) @ drop (Suc k') (d_skipped d))"
    using nonneg_entry_unique [of "d_skipped d" k'] hit_match by (simp add: wellFormed_def)
  ultimately show ?case using hit_match by simp
next
  case (read_match dn dns d k k')
  have "dn_n dn \<notin> se_i ` set (d_skipped d)" if "0 \<le> dn_n dn"
  proof
    assume "dn_n dn \<in> se_i ` set (d_skipped d)"
    with that read_match(5) have "dn_n dn \<le> d_n d" by (auto simp: wellFormed_def)
    with that read_match(3) show False by simp
  qed
  then show ?case using read_match by simp
next
  case (read_other dn dns d k k' x d2 r d' lg)
  from read_other have "wellFormed d2" by (simp add: wellFormed_append)
  from read_other.IH [OF this read_other.prems(2)] read_other.hyps(6) show ?case by auto
qed auto

lemma scanDevices_stays_claimed:
  "scanDevices fs a dns d k = (r, d', lg) \<Longrightarrow>
     0 \<le> N \<Longrightarrow> N \<le> d_n d \<Longrightarrow> N \<notin> se_i ` set (d_skipped d) \<Longrightarrow>
     N \<le> d_n d' \<and> N \<notin> se_i ` set (d_skipped d')
     \<and> (\<forall>p. r = Inr p \<longrightarrow> (\<exists>dn \<in> set dns. p = Join (d_path d) (dn_name dn) \<and> dn_n dn \<noteq> N))"
proof (induction rule: scanDevices_induct)
  case (hit_match dn dns d k k')
  have "set (take k' (d_skipped d) @ drop (Suc k') (d_skipped d)) \<subseteq> set (d_skipped d)"
    using set_take_subset [of k' "d_skipped d"] set_drop_subset [of "Suc k'" "d_skipped d"] by auto
  moreover have "d_skipped d ! k' \<in> set (d_skipped d)" using hit_match by simp
  then have "se_i (d_skipped d ! k') \<in> se_i ` set (d_skipped d)" by (rule imageI)
  with hit_match have "dn_n dn \<noteq> N" by auto
  ultimately show ?case using hit_match by auto
next
  case (read_other dn dns d k k' x d2 r d' lg)
  from read_other have "N \<le> d_n d2" "N \<notin> se_i ` set (d_skipped d2)" by auto
  from read_other.IH [OF read_other.prems(1) this] read_other.hyps(6) show ?case by auto
qed auto

lemma returnedSlot_listed:
  assumes "deviceDir_list bits fs d = Inr dns" and "dn \<in> set dns"
  shows "returnedSlot bits (d_prefix d) (Inr (Join dir (dn_name dn))) = Some (dn_n dn)"
  using deviceDir_list_parsed [OF assms] by (simp add: returnedSlot_def slotOf_def)

lemma returnedSlot_Some:
  "returnedSlot bits prefix r = Some N \<Longrightarrow> \<exists>p. r = Inr p"
  by (cases r) (simp_all add: returnedSlot_def)

lemma findByAddress_claims:
  assumes "findByAddress bits fs d a = (r, d', lg)" and "wellFormed d"
    and "returnedSlot bits (d_prefix d) r = Some N" and "0 \<le> N"
  shows "N \<le> d_n d' \<and> N \<notin> se_i ` set (d_skipped d')"
proof (cases rule: findByAddress_cases [of fs bits d a])
  case list_error
  with assms show ?thesis by (auto simp: returnedSlot_def)
next
  case (scan dns)
  from returnedSlot_Some [OF assms(3)] obtain p where p: "r = Inr p" ..
  from scan assms(1) have run: "scanDevices fs a dns d 0 = (r, d', lg)" by simp
  from scanDevices_claims [OF run assms(2) p]
  obtain dn where dn: "dn \<in> set dns" "p = Join (d_path d) (dn_name dn)"
    "0 \<le> dn_n dn \<longrightarrow> dn_n dn \<le> d_n d' \<and> dn_n dn \<notin> se_i ` set (d_skipped d')" by blast
  from returnedSlot_listed [OF scan(1) dn(1), of "d_path d"] assms(3) p dn(2)
  have "dn_n dn = N" by simp
  with dn(3) assms(4) show ?thesis by simp
qed

lemma findByAddress_stays_claimed:
  assumes "findByAddress bits fs d a = (r, d', lg)"
    and "0 \<le> N" and "N \<le> d_n d" and "N \<notin> se_i ` set (d_skipped d)"
  shows "N \<le> d_n d' \<and> N \<notin> se_i ` set (d_skipped d')
         \<and> returnedSlot bits (d_prefix d) r \<noteq> Some N"
proof (cases rule: findByAddress_cases [of fs bits d a])
  case list_error
  with assms show ?thesis by (auto simp: returnedSlot_def)
next
  case (scan dns)
  from scan assms(1) have run: "scanDevices fs a dns d 0 = (r, d', lg)" by simp
  note st = scanDevices_stays_claimed [OF run assms(2,3,4)]
  have "returnedSlot bits (d_prefix d) r \<noteq> Some N"
  proof
    assume rs: "returnedSlot bits (d_prefix d) r = Some N"
    from returnedSlot_Some [OF this] obtain p where p: "r = Inr p" ..
    with st obtain dn where dn: "dn \<in> set dns" "p = Join (d_path d) (dn_name dn)" "dn_n dn \<noteq> N"
      by blast
    from returnedSlot_listed [OF scan(1) dn(1), of "d_path d"] rs p dn(2,3) show False by simp
  qed
  with st show ?thesis by simp
qed

lemma run_stays_claimed:
  assumes "0 \<le> N" and "N \<le> d_n d" and "N \<notin> se_i ` set (d_skipped d)"
    and "(r, d', lg) \<in> set (run bits d calls)"
  shows "returnedSlot bits (d_prefix d) r \<noteq> Some N"
  using assms(2,3,4)
proof (induction calls arbitrary: d)
  case Nil
  then show ?case by simp
next
  case (Cons c cs)
  obtain fs a where c: "c = (fs, a)" by (cases c)
  obtain r1 d1 lg1 where f: "findByAddress bits fs d a = (r1, d1, lg1)" by (rule prod_cases3)
  note st = findByAddress_stays_claimed [OF f assms(1) Cons.prems(1,2)]
  from Cons.prems(3) have "(r, d', lg) = (r1, d1, lg1) \<or> (r, d', lg) \<in> set (run bits d1 cs)"
    by (simp add: c f)
  then show ?case
  proof
    assume "(r, d', lg) = (r1, d1, lg1)"
    with st show ?thesis by simp
  next
    assume "(r, d', lg) \<in> set (run bits d1 cs)"
    from Cons.IH [OF _ _ this] st findByAddress_config [OF f] show ?thesis by simp
  qed
qed

text \<open>
  No double claim, for device numbers that are not negative: in the calls on a new
  \<open>deviceDir\<close>, two different calls never return the same such number.
\<close>

lemma no_double_claim_nonneg:
  assumes "i < j" and "j < length calls" and "0 \<le> N"
    and "returnedSlot bits prefix (fst (run bits (newDeviceDir path prefix) calls ! i)) = Some N"
  shows "returnedSlot bits prefix (fst (run bits (newDeviceDir path prefix) calls ! j)) \<noteq> Some N"
proof -
  let ?d0 = "newDeviceDir path prefix"
  let ?di = "finalState bits ?d0 (take i calls)"
  let ?dj = "finalState bits ?d0 (take (Suc i) calls)"
  from assms(1,2) have i: "i < length calls" by simp
  obtain r d' lg where out: "run bits ?d0 calls ! i = (r, d', lg)" by (rule prod_cases3)
  have cfg: "d_prefix ?di = prefix" "d_prefix ?dj = prefix"
    using finalState_config [of bits ?d0] by (simp_all add: newDeviceDir_def)
  have wf: "wellFormed ?di" by (simp add: finalState_wellFormed wellFormed_new)
  from out run_nth [OF i, of bits ?d0]
  have call: "findByAddress bits (fst (calls ! i)) ?di (snd (calls ! i)) = (r, d', lg)" by simp
  from assms(4) out have "returnedSlot bits (d_prefix ?di) r = Some N" by (simp add: cfg)
  from findByAddress_claims [OF call wf this assms(3)]
  have cl: "N \<le> d_n d'" "N \<notin> se_i ` set (d_skipped d')" by simp_all
  have dj: "?dj = d'" using finalState_take_Suc [OF i, of bits ?d0] out by simp
  have "calls = take (Suc i) calls @ drop (Suc i) calls" by simp
  then have "run bits ?d0 calls = run bits ?d0 (take (Suc i) calls) @ run bits d' (drop (Suc i) calls)"
    using run_append [of bits ?d0 "take (Suc i) calls" "drop (Suc i) calls"] dj by simp
  moreover have "length (run bits ?d0 (take (Suc i) calls)) = Suc i"
    using i by (simp add: length_run)
  ultimately have "run bits ?d0 calls ! j = run bits d' (drop (Suc i) calls) ! (j - Suc i)"
    using assms(1) by (simp add: nth_append)
  moreover have "j - Suc i < length (run bits d' (drop (Suc i) calls))"
    using assms(1,2) by (simp add: length_run)
  ultimately have "run bits ?d0 calls ! j \<in> set (run bits d' (drop (Suc i) calls))"
    by (metis nth_mem)
  then obtain r2 d2 lg2 where "run bits ?d0 calls ! j = (r2, d2, lg2)"
    "(r2, d2, lg2) \<in> set (run bits d' (drop (Suc i) calls))"
    by (metis prod_cases3)
  with run_stays_claimed [OF assms(3) cl, of r2 d2 lg2 bits "drop (Suc i) calls"]
  show ?thesis using dj cfg by simp
qed

lemma append_above:
  assumes "wellFormed d" and "\<not> (0 \<le> d_n d \<and> m \<le> d_n d)" and "0 \<le> m"
  shows "\<forall>se \<in> set (d_skipped d). se_i se < m"
proof
  fix se assume se: "se \<in> set (d_skipped d)"
  show "se_i se < m"
  proof (cases "0 \<le> se_i se")
    case True
    with se assms(1) have "se_i se \<le> d_n d" by (simp add: wellFormed_def)
    with True assms(2) show ?thesis by simp
  next
    case False
    with assms(3) show ?thesis by simp
  qed
qed

lemma wellFormed_nonneg_sorted:
  assumes "wellFormed d" and "\<forall>se \<in> set (d_skipped d). 0 \<le> se_i se"
  shows "sorted_wrt (<) (map se_i (d_skipped d))"
proof -
  from assms(1) have "sorted_wrt entryOrder (d_skipped d)" by (simp add: wellFormed_def)
  moreover have "\<And>x y. \<lbrakk>x \<in> set (d_skipped d); y \<in> set (d_skipped d); entryOrder x y\<rbrakk> \<Longrightarrow> se_i x < se_i y"
    using assms(2) by (simp add: entryOrder_def)
  ultimately have "sorted_wrt (\<lambda>x y. se_i x < se_i y) (d_skipped d)"
    by (rule sorted_wrt_mono_rel [rotated])
  then show ?thesis by (simp add: sorted_wrt_map)
qed

lemma scanDevices_nonneg:
  "scanDevices fs a dns d k = (r, d', lg) \<Longrightarrow> \<forall>se \<in> set (d_skipped d). 0 \<le> se_i se \<Longrightarrow>
     \<forall>dn \<in> set dns. 0 \<le> dn_n dn \<Longrightarrow> \<forall>se \<in> set (d_skipped d'). 0 \<le> se_i se"
proof (induction rule: scanDevices_induct)
  case (hit_match dn dns d k k')
  have "set (take k' (d_skipped d) @ drop (Suc k') (d_skipped d)) \<subseteq> set (d_skipped d)"
    using set_take_subset [of k' "d_skipped d"] set_drop_subset [of "Suc k'" "d_skipped d"] by auto
  with hit_match show ?case by auto
qed auto

text \<open>
  The skip list in ascending order: as long as no directory entry has a negative number,
  the skip list of a new \<open>deviceDir\<close> stays in strictly ascending order of device numbers
  through every call.
\<close>

lemma skip_list_sorted_nonneg:
  assumes "\<forall>(fs, a) \<in> set calls. \<forall>names. readdirnames fs = Some names \<longrightarrow>
             (\<forall>name \<in> set names. 0 \<le> dn_n (parseDeviceName bits name prefix))"
  shows "sorted_wrt (<) (map se_i (d_skipped (finalState bits (newDeviceDir path prefix) calls)))"
proof -
  have "\<forall>se \<in> set (d_skipped (finalState bits d calls)). 0 \<le> se_i se"
    if "d_prefix d = prefix" "\<forall>se \<in> set (d_skipped d). 0 \<le> se_i se" for d
    using assms that
  proof (induction calls arbitrary: d)
    case Nil
    then show ?case by simp
  next
    case (Cons c cs)
    obtain fs a where c: "c = (fs, a)" by (cases c)
    obtain r d' lg where f: "findByAddress bits fs d a = (r, d', lg)" by (rule prod_cases3)
    have "\<forall>se \<in> set (d_skipped d'). 0 \<le> se_i se"
    proof (cases rule: findByAddress_cases [of fs bits d a])
      case list_error
      with f Cons.prems(3) show ?thesis by auto
    next
      case (scan dns)
      from deviceDir_list_set [OF scan(1)] obtain names where names: "readdirnames fs = Some names"
        "set dns = {dn. dn \<noteq> zeroDeviceName \<and> (\<exists>name \<in> set names. dn = parseDeviceName bits name (d_prefix d))}"
        by blast
      with Cons.prems(1,2) c have "\<forall>dn \<in> set dns. 0 \<le> dn_n dn" by auto
      moreover from scan f have "scanDevices fs a dns d 0 = (r, d', lg)" by simp
      ultimately show ?thesis using scanDevices_nonneg Cons.prems(3) by blast
    qed
    moreover have "d_prefix d' = prefix" using findByAddress_config [OF f] Cons.prems(2) by simp
    moreover have "\<forall>(fs, a) \<in> set cs. \<forall>names. readdirnames fs = Some names \<longrightarrow>
             (\<forall>name \<in> set names. 0 \<le> dn_n (parseDeviceName bits name prefix))"
      using Cons.prems(1) by simp
    ultimately show ?case using Cons.IH [of d'] by (simp add: c f)
  qed
  from this [of "newDeviceDir path prefix"]
  have "\<forall>se \<in> set (d_skipped (finalState bits (newDeviceDir path prefix) calls)). 0 \<le> se_i se"
    by (simp add: newDeviceDir_def)
  moreover have "wellFormed (finalState bits (newDeviceDir path prefix) calls)"
    by (simp add: finalState_wellFormed wellFormed_new)
  ultimately show ?thesis by (rule wellFormed_nonneg_sorted [rotated])
qed

subsection \<open>Entries of the skip list\<close>

lemma in_set_remove_nth:
  assumes "x \<in> set xs" and "x \<noteq> xs ! k"
  shows "x \<in> set (take k xs @ drop (Suc k) xs)"
proof -
  from assms(1) obtain j where j: "j < length xs" "xs ! j = x"
    by (auto simp: in_set_conv_nth)
  with assms(2) have "j \<noteq> k" by auto
  then consider "j < k" | "k < j" by linarith
  then show ?thesis
  proof cases
    case 1
    with j have "x \<in> set (take k xs)" by (auto simp: in_set_conv_nth)
    then show ?thesis by simp
  next
    case 2
    then obtain m where "j = Suc k + m" by (metis Suc_leI le_Suc_ex)
    with j have "x \<in> set (drop (Suc k) xs)"
      by (auto simp: in_set_conv_nth intro!: exI [of _ m])
    then show ?thesis by simp
  qed
qed

lemma scanDevices_keeps_entry:
  "scanDevices fs a dns d k = (r, d', lg) \<Longrightarrow> se \<in> set (d_skipped d) \<Longrightarrow> se_addr se \<noteq> a \<Longrightarrow>
     se \<in> set (d_skipped d')"
proof (induction rule: scanDevices_induct)
  case (hit_match dn dns d k k')
  then have "se \<noteq> d_skipped d ! k'" by auto
  from in_set_remove_nth [OF hit_match(5) this] show ?case by simp
qed auto

lemma scanDevices_records:
  "scanDevices fs a dns d k = (r, d', lg) \<Longrightarrow> (dn, Inr x) \<in> set lg \<Longrightarrow> x \<noteq> a \<Longrightarrow>
     \<lparr>se_i = dn_n dn, se_addr = x\<rparr> \<in> set (d_skipped d')"
proof (induction rule: scanDevices_induct)
  case (read_other dn0 dns d k k' x0 d2 r d' lg)
  show ?case
  proof (cases "(dn, Inr x) = (dn0, Inr x0)")
    case True
    then have "\<lparr>se_i = dn_n dn, se_addr = x\<rparr> \<in> set (d_skipped d2)"
      using read_other.hyps(6) by simp
    from scanDevices_keeps_entry [OF read_other.hyps(7) this] read_other.prems(2)
    show ?thesis by simp
  next
    case False
    with read_other.prems(1) have "(dn, Inr x) \<in> set lg" by auto
    from read_other.IH [OF this read_other.prems(2)] show ?thesis .
  qed
qed auto

lemma scanDevices_reads_listed:
  "scanDevices fs a dns d k = (r, d', lg) \<Longrightarrow> (dn, y) \<in> set lg \<Longrightarrow> dn \<in> set dns"
  by (induction rule: scanDevices_induct) auto

lemma findByAddress_keeps_entry:
  assumes "findByAddress bits fs d a = (r, d', lg)" and "se \<in> set (d_skipped d)" and "se_addr se \<noteq> a"
  shows "se \<in> set (d_skipped d')"
proof (cases rule: findByAddress_cases [of fs bits d a])
  case list_error
  with assms show ?thesis by auto
next
  case (scan dns)
  with assms(1) have "scanDevices fs a dns d 0 = (r, d', lg)" by simp
  from scanDevices_keeps_entry [OF this assms(2,3)] show ?thesis .
qed

lemma findByAddress_records:
  assumes "findByAddress bits fs d a = (r, d', lg)" and "(dn, Inr x) \<in> set lg" and "x \<noteq> a"
  shows "\<lparr>se_i = dn_n dn, se_addr = x\<rparr> \<in> set (d_skipped d')"
proof (cases rule: findByAddress_cases [of fs bits d a])
  case list_error
  with assms show ?thesis by auto
next
  case (scan dns)
  with assms(1) have "scanDevices fs a dns d 0 = (r, d', lg)" by simp
  from scanDevices_records [OF this assms(2,3)] show ?thesis .
qed

lemma finalState_keeps_entry:
  assumes "\<forall>(fs, a) \<in> set calls. a \<noteq> se_addr se" and "se \<in> set (d_skipped d)"
  shows "se \<in> set (d_skipped (finalState bits d calls))"
  using assms
proof (induction calls arbitrary: d)
  case Nil
  then show ?case by simp
next
  case (Cons c cs)
  obtain fs a where c: "c = (fs, a)" by (cases c)
  obtain r d' lg where f: "findByAddress bits fs d a = (r, d', lg)" by (rule prod_cases3)
  from Cons.prems(1) c have "se_addr se \<noteq> a" by auto
  from findByAddress_keeps_entry [OF f Cons.prems(2) this] have "se \<in> set (d_skipped d')" .
  with Cons.IH [of d'] Cons.prems(1) show ?case by (simp add: c f)
qed

subsection \<open>A stale entry of the skip list\<close>

lemma nonneg_entry_same:
  assumes "sorted_wrt entryOrder sk" and "x \<in> set sk" and "y \<in> set sk"
    and "se_i x = se_i y" and "0 \<le> se_i x"
  shows "x = y"
proof -
  from assms(2,3) obtain i j where ij: "i < length sk" "sk ! i = x" "j < length sk" "sk ! j = y"
    by (auto simp: in_set_conv_nth)
  have "\<not> i < j"
  proof
    assume "i < j"
    with assms(1) ij have "entryOrder x y" by (auto simp: sorted_wrt_iff_nth_less)
    with assms(4,5) show False by (simp add: entryOrder_def)
  qed
  moreover have "\<not> j < i"
  proof
    assume "j < i"
    with assms(1) ij have "entryOrder y x" by (auto simp: sorted_wrt_iff_nth_less)
    with assms(4,5) show False by (simp add: entryOrder_def)
  qed
  ultimately have "i = j" by linarith
  with ij show ?thesis by simp
qed

lemma scanDevices_stale:
  "scanDevices fs a dns d k = (r, d', lg) \<Longrightarrow> 0 \<le> d_n d \<Longrightarrow> N \<le> d_n d \<Longrightarrow>
     \<forall>se \<in> set (d_skipped d). se_i se = N \<longrightarrow> se_addr se = old \<Longrightarrow>
     (0 \<le> d_n d' \<and> N \<le> d_n d' \<and> (\<forall>se \<in> set (d_skipped d'). se_i se = N \<longrightarrow> se_addr se = old))
     \<and> (\<forall>p. r = Inr p \<longrightarrow>
          (\<exists>dn \<in> set dns. p = Join (d_path d) (dn_name dn) \<and> (dn_n dn = N \<longrightarrow> a = old)))"
proof (induction rule: scanDevices_induct)
  case (hit_match dn dns d k k')
  have sub: "set (take k' (d_skipped d) @ drop (Suc k') (d_skipped d)) \<subseteq> set (d_skipped d)"
    using set_take_subset [of k' "d_skipped d"] set_drop_subset [of "Suc k'" "d_skipped d"] by auto
  have mem: "d_skipped d ! k' \<in> set (d_skipped d)" using hit_match by simp
  have "dn_n dn = N \<longrightarrow> a = old" using mem hit_match(3,4,7) by metis
  with sub hit_match show ?case by auto
next
  case (read_other dn dns d k k' x d2 r d' lg)
  from read_other have "0 \<le> d_n d2" "N \<le> d_n d2"
    "\<forall>se \<in> set (d_skipped d2). se_i se = N \<longrightarrow> se_addr se = old" by auto
  from read_other.IH [OF this] read_other.hyps(6) show ?case by auto
qed auto

lemma findByAddress_stale:
  assumes "findByAddress bits fs d a = (r, d', lg)" and "0 \<le> d_n d" and "N \<le> d_n d"
    and "\<forall>se \<in> set (d_skipped d). se_i se = N \<longrightarrow> se_addr se = old"
  shows "(0 \<le> d_n d' \<and> N \<le> d_n d' \<and> (\<forall>se \<in> set (d_skipped d'). se_i se = N \<longrightarrow> se_addr se = old))
         \<and> (\<forall>(dn, y) \<in> set lg. dn_n dn \<noteq> N)
         \<and> (returnedSlot bits (d_prefix d) r = Some N \<longrightarrow> a = old)"
proof -
  have reads: "\<forall>(dn, y) \<in> set lg. dn_n dn \<noteq> N"
    using findByAddress_gate [OF assms(1,2)] assms(3) by fastforce
  show ?thesis
  proof (cases rule: findByAddress_cases [of fs bits d a])
    case list_error
    with assms show ?thesis by (auto simp: returnedSlot_def)
  next
    case (scan dns)
    with assms(1) have run: "scanDevices fs a dns d 0 = (r, d', lg)" by simp
    note st = scanDevices_stale [OF run assms(2,3,4)]
    have "a = old" if rs: "returnedSlot bits (d_prefix d) r = Some N"
    proof -
      from returnedSlot_Some [OF rs] obtain p where p: "r = Inr p" ..
      with st obtain dn where dn: "dn \<in> set dns" "p = Join (d_path d) (dn_name dn)"
        "dn_n dn = N \<longrightarrow> a = old" by blast
      from returnedSlot_listed [OF scan(1) dn(1), of "d_path d"] rs p dn(2)
      have "dn_n dn = N" by simp
      with dn(3) show ?thesis by simp
    qed
    with st reads show ?thesis by blast
  qed
qed

lemma run_stale:
  assumes "0 \<le> d_n d" and "N \<le> d_n d"
    and "\<forall>se \<in> set (d_skipped d). se_i se = N \<longrightarrow> se_addr se = old"
    and "i < length calls" and "run bits d calls ! i = (r, d', lg)"
  shows "(\<forall>(dn, y) \<in> set lg. dn_n dn \<noteq> N)
         \<and> (returnedSlot bits (d_prefix d) r = Some N \<longrightarrow> snd (calls ! i) = old)"
  using assms
proof (induction calls arbitrary: d i)
  case Nil
  then show ?case by simp
next
  case (Cons c cs)
  obtain fs a where c: "c = (fs, a)" by (cases c)
  obtain r1 d1 lg1 where f: "findByAddress bits fs d a = (r1, d1, lg1)" by (rule prod_cases3)
  note st = findByAddress_stale [OF f Cons.prems(1,2,3)]
  show ?case
  proof (cases i)
    case 0
    with Cons.prems(5) have "(r, d', lg) = (r1, d1, lg1)" by (simp add: c f)
    with st 0 show ?thesis by (simp add: c)
  next
    case (Suc j)
    with Cons.prems(4,5) have j: "j < length cs" "run bits d1 cs ! j = (r, d', lg)"
      by (simp_all add: c f)
    from st have inv: "0 \<le> d_n d1" "N \<le> d_n d1"
      "\<forall>se \<in> set (d_skipped d1). se_i se = N \<longrightarrow> se_addr se = old" by simp_all
    from Cons.IH [OF inv j] findByAddress_config [OF f] Suc show ?thesis by simp
  qed
qed

subsection \<open>Deleted devices\<close>

lemma scanDevices_no_match:
  "scanDevices fs a dns d k = (r, d', lg) \<Longrightarrow>
     \<forall>se \<in> set (d_skipped d). se_addr se = a \<longrightarrow> se_i se \<notin> dn_n ` set dns \<Longrightarrow>
     \<forall>dn \<in> set dns. readAddress fs dn \<noteq> Inr a \<Longrightarrow>
     r = Inl NotFound \<or> (\<exists>dn e. lg \<noteq> [] \<and> last lg = (dn, Inl e) \<and> r = Inl e)"
proof (induction rule: scanDevices_induct)
  case (hit_match dn dns d k k')
  have "d_skipped d ! k' \<in> set (d_skipped d)" using hit_match by simp
  with hit_match(5) hit_match(4) have "se_i (d_skipped d ! k') \<notin> dn_n ` set (dn # dns)" by blast
  with hit_match(3) show ?case by simp
next
  case (read_other dn dns d k k' x d2 r d' lg)
  have "\<forall>se \<in> set (d_skipped d2). se_addr se = a \<longrightarrow> se_i se \<notin> dn_n ` set dns"
    using read_other.prems(1) read_other.hyps(5,6) by auto
  moreover have "\<forall>dn \<in> set dns. readAddress fs dn \<noteq> Inr a"
    using read_other.prems(2) by simp
  ultimately have "r = Inl NotFound \<or> (\<exists>dn e. lg \<noteq> [] \<and> last lg = (dn, Inl e) \<and> r = Inl e)"
    by (rule read_other.IH)
  then show ?case by auto
qed auto

text \<open>
  C6. A call on a directory that lists no device with number \<open>N\<close>, from any state of the
  \<open>deviceDir\<close> (the number may have been returned before, or be in the skip list): the
  call does not return a path of number \<open>N\<close>, it reads no attribute of such a device, and
  it does not panic. When the skip list holds the address asked for only under numbers
  that are not listed, and no listed device has that address, the call returns "not
  found", unless a read of it fails.
\<close>

theorem deleted_device_is_absent:
  assumes "deviceDir_list bits fs d = Inr dns" and "N \<notin> dn_n ` set dns"
    and "findByAddress bits fs d a = (r, d', lg)"
  shows "returnedSlot bits (d_prefix d) r \<noteq> Some N
         \<and> r \<noteq> Inl Panic
         \<and> (\<forall>(dn, y) \<in> set lg. dn_n dn \<noteq> N)
         \<and> ((\<forall>se \<in> set (d_skipped d). se_addr se = a \<longrightarrow> se_i se \<notin> dn_n ` set dns)
              \<and> (\<forall>dn \<in> set dns. readAddress fs dn \<noteq> Inr a)
             \<longrightarrow> r = Inl NotFound \<or> (\<exists>dn e. lg \<noteq> [] \<and> last lg = (dn, Inl e) \<and> r = Inl e))"
proof -
  from assms(1,3) have run: "scanDevices fs a dns d 0 = (r, d', lg)"
    by (simp add: findByAddress_def)
  have "returnedSlot bits (d_prefix d) r \<noteq> Some N"
  proof
    assume rs: "returnedSlot bits (d_prefix d) r = Some N"
    from returnedSlot_Some [OF this] obtain p where p: "r = Inr p" ..
    from scanDevices_returns_listed [OF run p]
    obtain dn where dn: "dn \<in> set dns" "p = Join (d_path d) (dn_name dn)" by blast
    from returnedSlot_listed [OF assms(1) dn(1), of "d_path d"] rs p dn(2)
    have "dn_n dn = N" by simp
    with dn(1) assms(2) show False by auto
  qed
  moreover have "r \<noteq> Inl Panic"
    using findByAddress_no_panic [of bits fs d a] assms(3) by simp
  moreover have "\<forall>(dn, y) \<in> set lg. dn_n dn \<noteq> N"
    using scanDevices_reads_listed [OF run] assms(2) by fastforce
  moreover have "r = Inl NotFound \<or> (\<exists>dn e. lg \<noteq> [] \<and> last lg = (dn, Inl e) \<and> r = Inl e)"
    if "\<forall>se \<in> set (d_skipped d). se_addr se = a \<longrightarrow> se_i se \<notin> dn_n ` set dns"
      and "\<forall>dn \<in> set dns. readAddress fs dn \<noteq> Inr a"
    using scanDevices_no_match [OF run that] .
  ultimately show ?thesis by blast
qed

text \<open>
  A witness, the test \<open>DoesNotProduceDeletedSkippedDevice\<close>: the skip list holds
  \<open>iface:S3\<close> for device 0, \<open>sensor0\<close> has been deleted, and the call for \<open>iface:S3\<close>
  returns "not found".
\<close>

theorem deleted_device_is_absent_witness:
  "deviceDir_list 64
     (classDir [(''sensor1'', ''iface:S1'' @ [CHR 0x0A]), (''sensor2'', ''iface:S2'' @ [CHR 0x0A])])
     \<lparr>d_path = ''/sys/class/lego-sensor'', d_prefix = ''sensor'', d_n = 1,
      d_skipped = [\<lparr>se_i = 0, se_addr = addrOf ''iface:S3''\<rparr>]\<rparr>
     = Inr [\<lparr>dn_name = ''sensor1'', dn_n = 1\<rparr>, \<lparr>dn_name = ''sensor2'', dn_n = 2\<rparr>]
   \<and> 0 \<notin> dn_n ` set [\<lparr>dn_name = ''sensor1'', dn_n = 1\<rparr>, \<lparr>dn_name = ''sensor2'', dn_n = 2\<rparr>]
   \<and> findByAddress 64
       (classDir [(''sensor1'', ''iface:S1'' @ [CHR 0x0A]), (''sensor2'', ''iface:S2'' @ [CHR 0x0A])])
       \<lparr>d_path = ''/sys/class/lego-sensor'', d_prefix = ''sensor'', d_n = 1,
        d_skipped = [\<lparr>se_i = 0, se_addr = addrOf ''iface:S3''\<rparr>]\<rparr>
       (addrOf ''iface:S3'')
     = (Inl NotFound,
        \<lparr>d_path = ''/sys/class/lego-sensor'', d_prefix = ''sensor'', d_n = 2,
         d_skipped = [\<lparr>se_i = 0, se_addr = addrOf ''iface:S3''\<rparr>,
                      \<lparr>se_i = 2, se_addr = addrOf ''iface:S2''\<rparr>]\<rparr>,
        [(\<lparr>dn_name = ''sensor2'', dn_n = 2\<rparr>, Inr (addrOf ''iface:S2''))])
   \<and> returnedSlot 64 ''sensor'' (Inl NotFound) \<noteq> Some 0"
proof -
  let ?fs = "classDir [(''sensor1'', ''iface:S1'' @ [CHR 0x0A]), (''sensor2'', ''iface:S2'' @ [CHR 0x0A])]"
  let ?d = "\<lparr>d_path = ''/sys/class/lego-sensor'', d_prefix = ''sensor'', d_n = 1,
      d_skipped = [\<lparr>se_i = 0, se_addr = addrOf ''iface:S3''\<rparr>]\<rparr>"
  let ?dns = "[\<lparr>dn_name = ''sensor1'', dn_n = 1\<rparr>, \<lparr>dn_name = ''sensor2'', dn_n = 2\<rparr>]"
  have l: "deviceDir_list 64 ?fs ?d = Inr ?dns"
    by (simp add: eval_list)
  have n: "0 \<notin> dn_n ` set ?dns" by simp
  have c: "findByAddress 64 ?fs ?d (addrOf ''iface:S3'')
     = (Inl NotFound,
        \<lparr>d_path = ''/sys/class/lego-sensor'', d_prefix = ''sensor'', d_n = 2,
         d_skipped = [\<lparr>se_i = 0, se_addr = addrOf ''iface:S3''\<rparr>,
                      \<lparr>se_i = 2, se_addr = addrOf ''iface:S2''\<rparr>]\<rparr>,
        [(\<lparr>dn_name = ''sensor2'', dn_n = 2\<rparr>, Inr (addrOf ''iface:S2''))])"
    by (simp add: eval_list eval_scan)
  from deleted_device_is_absent [OF l n c]
  have "returnedSlot 64 ''sensor'' (Inl NotFound) \<noteq> Some 0" by simp
  with l n c show ?thesis by blast
qed

subsection \<open>Replay from the skip list\<close>

lemma cursorAt_finds:
  assumes "sorted_wrt entryOrder sk" and "se \<in> set sk" and "0 \<le> se_i se"
    and "\<forall>j<k. se_i (sk ! j) < se_i se"
  shows "cursorAt sk k (se_i se) < length sk \<and> sk ! cursorAt sk k (se_i se) = se"
proof -
  let ?c = "cursorAt sk k (se_i se)"
  from assms(2) obtain p where p: "p < length sk" "sk ! p = se"
    by (auto simp: in_set_conv_nth)
  have kp: "k \<le> p"
  proof (rule ccontr)
    assume "\<not> k \<le> p"
    then have "p < k" by simp
    with assms(4) have "se_i (sk ! p) < se_i se" by blast
    with p(2) show False by simp
  qed
  have cp: "?c \<le> p"
  proof (rule ccontr)
    assume "\<not> ?c \<le> p"
    then have "p < ?c" by simp
    from cursorAt_passed [OF kp this] p(2) show False by simp
  qed
  have "\<not> ?c < p"
  proof
    assume lt: "?c < p"
    with p(1) have "?c < length sk" by simp
    from cursorAt_stop [OF this] have "\<not> se_i (sk ! ?c) < se_i se" .
    moreover from assms(1) lt p(1) have "entryOrder (sk ! ?c) (sk ! p)"
      by (simp add: sorted_wrt_iff_nth_less)
    ultimately show False using assms(3) p(2) by (simp add: entryOrder_def)
  qed
  with cp have "?c = p" by simp
  with p show ?thesis by simp
qed

lemma scanDevices_replay:
  assumes "wellFormed d" and "sorted (map dn_n dns)"
    and "se \<in> set (d_skipped d)" and "0 \<le> se_i se" and "se_addr se = a"
    and "se_i se \<in> dn_n ` set dns"
    and "\<forall>j<k. \<forall>dn \<in> set dns. se_i (d_skipped d ! j) < dn_n dn"
    and "\<forall>se' \<in> set (d_skipped d). se_addr se' = a \<and> se_i se' < se_i se \<longrightarrow> se_i se' \<notin> dn_n ` set dns"
  shows "\<exists>dn \<in> set dns. dn_n dn = se_i se
           \<and> (\<exists>sk'. scanDevices fs a dns d k = (Inr (Join (d_path d) (dn_name dn)), d\<lparr>d_skipped := sk'\<rparr>, []))"
  using assms(2,6,7,8)
proof (induction dns arbitrary: k)
  case Nil
  then show ?case by simp
next
  case (Cons dn dns)
  let ?sk = "d_skipped d"
  let ?k = "cursorAt ?sk k (dn_n dn)"
  note step = scanDevices_Cons [of fs a dn dns d k, unfolded Let_def]
  show ?case
  proof (cases "dn_n dn = se_i se")
    case True
    from Cons.prems(3) True have "\<forall>j<k. se_i (?sk ! j) < se_i se" by simp
    from cursorAt_finds [OF _ assms(3,4) this] assms(1) True
    have found: "?k < length ?sk" "?sk ! ?k = se" by (simp_all add: wellFormed_def)
    with True assms(5) have "scanDevices fs a (dn # dns) d k =
        (Inr (Join (d_path d) (dn_name dn)), d\<lparr>d_skipped := take ?k ?sk @ drop (Suc ?k) ?sk\<rparr>, [])"
      by (simp add: step)
    with True show ?thesis by auto
  next
    case False
    from Cons.prems(1) have le: "\<forall>dn' \<in> set dns. dn_n dn \<le> dn_n dn'" and srt: "sorted (map dn_n dns)"
      by simp_all
    from Cons.prems(2) False have listed: "se_i se \<in> dn_n ` set dns" by auto
    with le False have lt: "dn_n dn < se_i se" by force
    from assms(1,3,4) have hw: "se_i se \<le> d_n d" by (auto simp: wellFormed_def)
    have pass: "scanDevices fs a (dn # dns) d k = scanDevices fs a dns d ?k"
    proof (cases "?k < length ?sk \<and> se_i (?sk ! ?k) = dn_n dn")
      case True
      then have "?sk ! ?k \<in> set ?sk" by simp
      with Cons.prems(4) True lt have "se_addr (?sk ! ?k) \<noteq> a" by force
      with True show ?thesis by (simp add: step)
    next
      case miss: False
      from hw lt assms(4) have "0 \<le> d_n d \<and> dn_n dn \<le> d_n d" by simp
      then show ?thesis by (simp only: step if_not_P [OF miss] if_P)
    qed
    have cur: "\<forall>j<?k. \<forall>dn' \<in> set dns. se_i (?sk ! j) < dn_n dn'"
    proof (intro allI impI ballI)
      fix j dn' assume j: "j < ?k" and dn': "dn' \<in> set dns"
      show "se_i (?sk ! j) < dn_n dn'"
      proof (cases "j < k")
        case True
        with Cons.prems(3) dn' show ?thesis by simp
      next
        case False
        then have "k \<le> j" by simp
        from cursorAt_passed [OF this j] le dn' show ?thesis by force
      qed
    qed
    have first: "\<forall>se' \<in> set ?sk. se_addr se' = a \<and> se_i se' < se_i se \<longrightarrow> se_i se' \<notin> dn_n ` set dns"
      using Cons.prems(4) by auto
    from Cons.IH [OF srt listed cur first] pass show ?thesis by auto
  qed
qed

text \<open>
  C3, as amended. In a state that the \<open>deviceDir\<close> can reach, a call for the address
  \<open>X\<close> reads the address \<open>Y\<close>, other than \<open>X\<close>, of a device whose number is not negative.
  Calls for addresses other than \<open>Y\<close> may follow. Then a call for \<open>Y\<close>, on a directory
  that lists a device with that number, returns a path of that number and reads no
  attribute at all, as long as the skip list holds \<open>Y\<close> for no listed device of lower
  number: the scan returns the first match.
\<close>

theorem skipped_device_is_replayed:
  assumes "d0 = finalState bits (newDeviceDir path prefix) history"
    and "findByAddress bits fs1 d0 X = (r1, d1, lg1)"
    and "(dnA, Inr Y) \<in> set lg1" and "Y \<noteq> X" and "0 \<le> dn_n dnA"
    and "\<forall>(fs, a) \<in> set between. a \<noteq> Y" and "d2 = finalState bits d1 between"
    and "deviceDir_list bits fs2 d2 = Inr dns2" and "dn_n dnA \<in> dn_n ` set dns2"
    and "\<forall>se \<in> set (d_skipped d2). se_addr se = Y \<and> se_i se < dn_n dnA \<longrightarrow> se_i se \<notin> dn_n ` set dns2"
  shows "\<exists>r d3. findByAddress bits fs2 d2 Y = (r, d3, [])
                 \<and> returnedSlot bits prefix r = Some (dn_n dnA)"
proof -
  let ?se = "\<lparr>se_i = dn_n dnA, se_addr = Y\<rparr>"
  have "wellFormed d0" unfolding assms(1) by (simp add: finalState_wellFormed wellFormed_new)
  with findByAddress_wellFormed [OF assms(2)] have "wellFormed d1" .
  then have wf: "wellFormed d2" unfolding assms(7) by (rule finalState_wellFormed)
  have "d_prefix d0 = prefix"
    unfolding assms(1) using finalState_config [of bits "newDeviceDir path prefix" history]
    by (simp add: newDeviceDir_def)
  with findByAddress_config [OF assms(2)] have "d_prefix d1 = prefix" by simp
  then have cfg: "d_prefix d2 = prefix"
    unfolding assms(7) using finalState_config [of bits d1 between] by simp
  from findByAddress_records [OF assms(2,3,4)] have "?se \<in> set (d_skipped d1)" .
  moreover from assms(6) have "\<forall>(fs, a) \<in> set between. a \<noteq> se_addr ?se" by simp
  ultimately have mem: "?se \<in> set (d_skipped d2)"
    unfolding assms(7) by (rule finalState_keeps_entry [rotated])
  have srt: "sorted (map dn_n dns2)" using assms(8) by (rule deviceDir_list_sorted)
  from scanDevices_replay [of d2 dns2 ?se Y 0 fs2, OF wf srt mem] assms(5,9,10)
  obtain dn sk' where dn: "dn \<in> set dns2" "dn_n dn = dn_n dnA"
    "scanDevices fs2 Y dns2 d2 0 = (Inr (Join (d_path d2) (dn_name dn)), d2\<lparr>d_skipped := sk'\<rparr>, [])"
    by auto
  from dn(3) assms(8)
  have "findByAddress bits fs2 d2 Y = (Inr (Join (d_path d2) (dn_name dn)), d2\<lparr>d_skipped := sk'\<rparr>, [])"
    by (simp add: findByAddress_def)
  moreover from returnedSlot_listed [OF assms(8) dn(1), of "d_path d2"] dn(2) cfg
  have "returnedSlot bits prefix (Inr (Join (d_path d2) (dn_name dn))) = Some (dn_n dnA)" by simp
  ultimately show ?thesis by blast
qed

text \<open>
  A witness, the test \<open>ProducesSkippedDevices\<close>: the call for \<open>iface:S1\<close> reads and
  records \<open>sensor0\<close>, and the call for \<open>iface:S3\<close> that follows returns \<open>sensor0\<close> and
  reads nothing.
\<close>

theorem skipped_device_is_replayed_witness:
  "newDeviceDir ''/sys/class/lego-sensor'' ''sensor''
     = finalState 64 (newDeviceDir ''/sys/class/lego-sensor'' ''sensor'') []
   \<and> findByAddress 64
        (classDir [(''sensor0'', ''iface:S3'' @ [CHR 0x0A]), (''sensor1'', ''iface:S1'' @ [CHR 0x0A]),
                   (''sensor2'', ''iface:S2'' @ [CHR 0x0A])])
        (newDeviceDir ''/sys/class/lego-sensor'' ''sensor'') (addrOf ''iface:S1'')
       = (Inr (Join ''/sys/class/lego-sensor'' ''sensor1''),
          \<lparr>d_path = ''/sys/class/lego-sensor'', d_prefix = ''sensor'', d_n = 1,
           d_skipped = [\<lparr>se_i = 0, se_addr = addrOf ''iface:S3''\<rparr>]\<rparr>,
          [(\<lparr>dn_name = ''sensor0'', dn_n = 0\<rparr>, Inr (addrOf ''iface:S3'')),
           (\<lparr>dn_name = ''sensor1'', dn_n = 1\<rparr>, Inr (addrOf ''iface:S1''))])
   \<and> addrOf ''iface:S3'' \<noteq> addrOf ''iface:S1''
   \<and> deviceDir_list 64
        (classDir [(''sensor0'', ''iface:S3'' @ [CHR 0x0A]), (''sensor1'', ''iface:S1'' @ [CHR 0x0A]),
                   (''sensor2'', ''iface:S2'' @ [CHR 0x0A])])
        \<lparr>d_path = ''/sys/class/lego-sensor'', d_prefix = ''sensor'', d_n = 1,
           d_skipped = [\<lparr>se_i = 0, se_addr = addrOf ''iface:S3''\<rparr>]\<rparr>
       = Inr [\<lparr>dn_name = ''sensor0'', dn_n = 0\<rparr>, \<lparr>dn_name = ''sensor1'', dn_n = 1\<rparr>,
              \<lparr>dn_name = ''sensor2'', dn_n = 2\<rparr>]
   \<and> snd (snd (findByAddress 64
        (classDir [(''sensor0'', ''iface:S3'' @ [CHR 0x0A]), (''sensor1'', ''iface:S1'' @ [CHR 0x0A]),
                   (''sensor2'', ''iface:S2'' @ [CHR 0x0A])])
        \<lparr>d_path = ''/sys/class/lego-sensor'', d_prefix = ''sensor'', d_n = 1,
           d_skipped = [\<lparr>se_i = 0, se_addr = addrOf ''iface:S3''\<rparr>]\<rparr>
        (addrOf ''iface:S3''))) = []
   \<and> returnedSlot 64 ''sensor'' (fst (findByAddress 64
        (classDir [(''sensor0'', ''iface:S3'' @ [CHR 0x0A]), (''sensor1'', ''iface:S1'' @ [CHR 0x0A]),
                   (''sensor2'', ''iface:S2'' @ [CHR 0x0A])])
        \<lparr>d_path = ''/sys/class/lego-sensor'', d_prefix = ''sensor'', d_n = 1,
           d_skipped = [\<lparr>se_i = 0, se_addr = addrOf ''iface:S3''\<rparr>]\<rparr>
        (addrOf ''iface:S3''))) = Some 0"
proof -
  let ?fs = "classDir [(''sensor0'', ''iface:S3'' @ [CHR 0x0A]), (''sensor1'', ''iface:S1'' @ [CHR 0x0A]),
                   (''sensor2'', ''iface:S2'' @ [CHR 0x0A])]"
  let ?d0 = "newDeviceDir ''/sys/class/lego-sensor'' ''sensor''"
  let ?d1 = "\<lparr>d_path = ''/sys/class/lego-sensor'', d_prefix = ''sensor'', d_n = 1,
           d_skipped = [\<lparr>se_i = 0, se_addr = addrOf ''iface:S3''\<rparr>]\<rparr>"
  let ?dn0 = "\<lparr>dn_name = ''sensor0'', dn_n = 0\<rparr>"
  let ?dns = "[?dn0, \<lparr>dn_name = ''sensor1'', dn_n = 1\<rparr>, \<lparr>dn_name = ''sensor2'', dn_n = 2\<rparr>]"
  have reach: "?d0 = finalState 64 ?d0 []" by simp
  have first: "findByAddress 64 ?fs ?d0 (addrOf ''iface:S1'')
       = (Inr (Join ''/sys/class/lego-sensor'' ''sensor1''), ?d1,
          [(?dn0, Inr (addrOf ''iface:S3'')),
           (\<lparr>dn_name = ''sensor1'', dn_n = 1\<rparr>, Inr (addrOf ''iface:S1''))])"
    by (simp add: eval_list eval_scan)
  have rd: "(?dn0, Inr (addrOf ''iface:S3''))
              \<in> set [(?dn0, Inr (addrOf ''iface:S3'')),
                      (\<lparr>dn_name = ''sensor1'', dn_n = 1\<rparr>, Inr (addrOf ''iface:S1''))]"
    by simp
  have ne: "addrOf ''iface:S3'' \<noteq> addrOf ''iface:S1''"
    by (simp add: addrOf_def newAddress_Inr)
  have nn: "0 \<le> dn_n ?dn0" by simp
  have btw: "\<forall>(fs, a) \<in> set ([] :: (sysfs \<times> address) list). a \<noteq> addrOf ''iface:S3''" by simp
  have d2: "?d1 = finalState 64 ?d1 []" by simp
  have l: "deviceDir_list 64 ?fs ?d1 = Inr ?dns" by (simp add: eval_list)
  have listed: "dn_n ?dn0 \<in> dn_n ` set ?dns" by simp
  have lower: "\<forall>se \<in> set (d_skipped ?d1).
      se_addr se = addrOf ''iface:S3'' \<and> se_i se < dn_n ?dn0 \<longrightarrow> se_i se \<notin> dn_n ` set ?dns"
    by simp
  from skipped_device_is_replayed [OF reach first rd ne nn btw d2 l listed lower]
  obtain r d3 where "findByAddress 64 ?fs ?d1 (addrOf ''iface:S3'') = (r, d3, [])"
    "returnedSlot 64 ''sensor'' r = Some (dn_n ?dn0)" by blast
  then have "snd (snd (findByAddress 64 ?fs ?d1 (addrOf ''iface:S3''))) = []"
    "returnedSlot 64 ''sensor'' (fst (findByAddress 64 ?fs ?d1 (addrOf ''iface:S3''))) = Some 0"
    by simp_all
  with reach first ne l show ?thesis by blast
qed

text \<open>
  C3 as stated fails when two devices have the same address. The call for \<open>iface:S1\<close>
  reads and records \<open>sensor0\<close> and \<open>sensor1\<close>, both with address \<open>iface:S3\<close>. The call
  for \<open>iface:S3\<close> that follows reads nothing and returns \<open>sensor0\<close>, the first match: it
  does not return the path of device 1, which was read and recorded too.

  And with negative numbers a recorded device is read a second time: two calls for
  \<open>iface:S1\<close> record \<open>sensor-5\<close> and then \<open>sensor-7\<close>; the call for \<open>iface:S2\<close>, the
  address recorded for \<open>sensor-7\<close>, does not find the entry and reads the attribute of
  \<open>sensor-7\<close> again.
\<close>

theorem skipped_device_counterexample:
  "run 64 (newDeviceDir ''/sys/class/lego-sensor'' ''sensor'')
     [(classDir [(''sensor0'', ''iface:S3'' @ [CHR 0x0A]), (''sensor1'', ''iface:S3'' @ [CHR 0x0A]),
                 (''sensor2'', ''iface:S1'' @ [CHR 0x0A])], addrOf ''iface:S1''),
      (classDir [(''sensor0'', ''iface:S3'' @ [CHR 0x0A]), (''sensor1'', ''iface:S3'' @ [CHR 0x0A]),
                 (''sensor2'', ''iface:S1'' @ [CHR 0x0A])], addrOf ''iface:S3'')]
   = [(Inr (Join ''/sys/class/lego-sensor'' ''sensor2''),
       \<lparr>d_path = ''/sys/class/lego-sensor'', d_prefix = ''sensor'', d_n = 2,
        d_skipped = [\<lparr>se_i = 0, se_addr = addrOf ''iface:S3''\<rparr>,
                     \<lparr>se_i = 1, se_addr = addrOf ''iface:S3''\<rparr>]\<rparr>,
       [(\<lparr>dn_name = ''sensor0'', dn_n = 0\<rparr>, Inr (addrOf ''iface:S3'')),
        (\<lparr>dn_name = ''sensor1'', dn_n = 1\<rparr>, Inr (addrOf ''iface:S3'')),
        (\<lparr>dn_name = ''sensor2'', dn_n = 2\<rparr>, Inr (addrOf ''iface:S1''))]),
      (Inr (Join ''/sys/class/lego-sensor'' ''sensor0''),
       \<lparr>d_path = ''/sys/class/lego-sensor'', d_prefix = ''sensor'', d_n = 2,
        d_skipped = [\<lparr>se_i = 1, se_addr = addrOf ''iface:S3''\<rparr>]\<rparr>,
       [])]
   \<and> returnedSlot 64 ''sensor'' (Inr (Join ''/sys/class/lego-sensor'' ''sensor0'')) = Some 0
   \<and> returnedSlot 64 ''sensor'' (Inr (Join ''/sys/class/lego-sensor'' ''sensor0'')) \<noteq> Some 1
   \<and> run 64 (newDeviceDir ''/sys/class/lego-sensor'' ''sensor'')
     [(classDir [(''sensor-5'', ''iface:S3'' @ [CHR 0x0A])], addrOf ''iface:S1''),
      (classDir [(''sensor-5'', ''iface:S3'' @ [CHR 0x0A]), (''sensor-7'', ''iface:S2'' @ [CHR 0x0A])],
       addrOf ''iface:S1''),
      (classDir [(''sensor-5'', ''iface:S3'' @ [CHR 0x0A]), (''sensor-7'', ''iface:S2'' @ [CHR 0x0A])],
       addrOf ''iface:S2'')]
   = [(Inl NotFound,
       \<lparr>d_path = ''/sys/class/lego-sensor'', d_prefix = ''sensor'', d_n = - 5,
        d_skipped = [\<lparr>se_i = - 5, se_addr = addrOf ''iface:S3''\<rparr>]\<rparr>,
       [(\<lparr>dn_name = ''sensor-5'', dn_n = - 5\<rparr>, Inr (addrOf ''iface:S3''))]),
      (Inl NotFound,
       \<lparr>d_path = ''/sys/class/lego-sensor'', d_prefix = ''sensor'', d_n = - 7,
        d_skipped = [\<lparr>se_i = - 5, se_addr = addrOf ''iface:S3''\<rparr>,
                     \<lparr>se_i = - 7, se_addr = addrOf ''iface:S2''\<rparr>]\<rparr>,
       [(\<lparr>dn_name = ''sensor-7'', dn_n = - 7\<rparr>, Inr (addrOf ''iface:S2''))]),
      (Inr (Join ''/sys/class/lego-sensor'' ''sensor-7''),
       \<lparr>d_path = ''/sys/class/lego-sensor'', d_prefix = ''sensor'', d_n = - 7,
        d_skipped = [\<lparr>se_i = - 5, se_addr = addrOf ''iface:S3''\<rparr>,
                     \<lparr>se_i = - 7, se_addr = addrOf ''iface:S2''\<rparr>]\<rparr>,
       [(\<lparr>dn_name = ''sensor-7'', dn_n = - 7\<rparr>, Inr (addrOf ''iface:S2''))])]"
  by (simp add: eval_list eval_scan returnedSlot_def slotOf_def)

subsection \<open>A failed read, and the same call again\<close>

text \<open>
  When a call fails on a read, the devices listed before the one whose read fails are all
  settled in the state that the call leaves: each is at or below \<open>d.n\<close>, and the skip
  list holds no entry of its number with the address asked for. The device whose read
  fails is neither in the skip list nor at or below \<open>d.n\<close>. So the same call, made again
  on the same directory, passes the first ones without a read and reads that device
  again. This is for device numbers that are not negative. Of the order of the listing
  the proofs use only that it is ascending in the device numbers, and the same in both
  calls.
\<close>

lemma not_hit_absent:
  assumes "sorted_wrt entryOrder sk" and "0 \<le> m" and "\<forall>j<k. se_i (sk ! j) < m"
    and "\<not> (cursorAt sk k m < length sk \<and> se_i (sk ! cursorAt sk k m) = m)"
  shows "m \<notin> se_i ` set sk"
proof
  assume "m \<in> se_i ` set sk"
  then obtain se where se: "se \<in> set sk" "se_i se = m" by auto
  from se(2) assms(2,3) have "0 \<le> se_i se" "\<forall>j<k. se_i (sk ! j) < se_i se" by simp_all
  from cursorAt_finds [OF assms(1) se(1) this] se(2)
  have "cursorAt sk k m < length sk \<and> sk ! cursorAt sk k m = se" by simp
  with se(2) assms(4) show False by simp
qed

lemma cursor_step:
  assumes "\<forall>j<k. \<forall>x \<in> set (dn # dns). se_i (sk ! j) < dn_n x"
    and "sorted (map dn_n (dn # dns))"
  shows "\<forall>j<cursorAt sk k (dn_n dn). \<forall>x \<in> set dns. se_i (sk ! j) < dn_n x"
proof (intro allI impI ballI)
  fix j x assume j: "j < cursorAt sk k (dn_n dn)" and x: "x \<in> set dns"
  from assms(2) x have le: "dn_n dn \<le> dn_n x" by auto
  show "se_i (sk ! j) < dn_n x"
  proof (cases "j < k")
    case True
    with assms(1) x show ?thesis by simp
  next
    case False
    then have "k \<le> j" by simp
    from cursorAt_passed [OF this j] le show ?thesis by simp
  qed
qed

lemma scanDevices_new_entries:
  "scanDevices fs a dns d k = (r, d', lg) \<Longrightarrow> se \<in> set (d_skipped d') \<Longrightarrow>
     se \<in> set (d_skipped d) \<or> (\<exists>dn x. (dn, Inr x) \<in> set lg \<and> se = \<lparr>se_i = dn_n dn, se_addr = x\<rparr>)"
proof (induction rule: scanDevices_induct)
  case (hit_match dn dns d k k')
  have "set (take k' (d_skipped d) @ drop (Suc k') (d_skipped d)) \<subseteq> set (d_skipped d)"
    using set_take_subset [of k' "d_skipped d"] set_drop_subset [of "Suc k'" "d_skipped d"] by auto
  with hit_match show ?case by auto
next
  case (read_other dn dns d k k' x d2 r d' lg)
  from read_other.IH [OF read_other.prems] read_other.hyps(6) show ?case by auto
qed auto

lemma scanDevices_pass:
  assumes "\<forall>x \<in> set pre. 0 \<le> d_n d \<and> dn_n x \<le> d_n d
             \<and> (\<forall>se \<in> set (d_skipped d). se_i se = dn_n x \<longrightarrow> se_addr se \<noteq> a)"
    and "dn_n dn \<notin> se_i ` set (d_skipped d)"
    and "\<not> (0 \<le> d_n d \<and> dn_n dn \<le> d_n d)"
    and "readAddress fs dn = Inl e"
  shows "scanDevices fs a (pre @ dn # rest) d k = (Inl e, d, [(dn, Inl e)])"
  using assms(1)
proof (induction pre arbitrary: k)
  case Nil
  let ?k = "cursorAt (d_skipped d) k (dn_n dn)"
  have miss: "\<not> (?k < length (d_skipped d) \<and> se_i (d_skipped d ! ?k) = dn_n dn)"
  proof
    assume h: "?k < length (d_skipped d) \<and> se_i (d_skipped d ! ?k) = dn_n dn"
    then have "d_skipped d ! ?k \<in> set (d_skipped d)" by simp
    then have "se_i (d_skipped d ! ?k) \<in> se_i ` set (d_skipped d)" by (rule imageI)
    with h assms(2) show False by simp
  qed
  show ?case
    using assms(3,4)
    by (simp only: append_Nil scanDevices_Cons Let_def if_not_P [OF miss] if_False sum.case)
next
  case (Cons x pre)
  let ?k = "cursorAt (d_skipped d) k (dn_n x)"
  from Cons.prems have x: "0 \<le> d_n d \<and> dn_n x \<le> d_n d"
    and other: "\<forall>se \<in> set (d_skipped d). se_i se = dn_n x \<longrightarrow> se_addr se \<noteq> a"
    and rest: "\<forall>x \<in> set pre. 0 \<le> d_n d \<and> dn_n x \<le> d_n d
             \<and> (\<forall>se \<in> set (d_skipped d). se_i se = dn_n x \<longrightarrow> se_addr se \<noteq> a)"
    by simp_all
  have "scanDevices fs a (x # (pre @ dn # rest)) d k = scanDevices fs a (pre @ dn # rest) d ?k"
  proof (cases "?k < length (d_skipped d) \<and> se_i (d_skipped d ! ?k) = dn_n x")
    case True
    then have "d_skipped d ! ?k \<in> set (d_skipped d)" by simp
    with other True have "se_addr (d_skipped d ! ?k) \<noteq> a" by blast
    with True show ?thesis by (simp add: scanDevices_Cons Let_def)
  next
    case False
    show ?thesis
      using x by (simp only: scanDevices_Cons Let_def if_not_P [OF False] if_P)
  qed
  with Cons.IH [OF rest, of ?k] show ?case by simp
qed


lemma entry_settles:
  assumes "scanDevices fs a dns d k = (r, d', lg)" and "wellFormed d"
    and "se \<in> set (d_skipped d)" and "se_addr se \<noteq> a" and "0 \<le> se_i se"
  shows "0 \<le> d_n d' \<and> se_i se \<le> d_n d'
         \<and> (\<forall>se' \<in> set (d_skipped d'). se_i se' = se_i se \<longrightarrow> se_addr se' \<noteq> a)"
proof -
  from assms(2,3,5) have le: "se_i se \<le> d_n d" by (simp add: wellFormed_def)
  with assms(5) have "0 \<le> d_n d" by simp
  from scanDevices_gate [OF assms(1) this] have "d_n d \<le> d_n d'" by simp
  with le assms(5) have mark: "0 \<le> d_n d'" "se_i se \<le> d_n d'" by simp_all
  from scanDevices_keeps_entry [OF assms(1,3,4)] have mem: "se \<in> set (d_skipped d')" .
  from scanDevices_wellFormed [OF assms(1,2)] have srt: "sorted_wrt entryOrder (d_skipped d')"
    by (simp add: wellFormed_def)
  have "se_addr se' \<noteq> a" if "se' \<in> set (d_skipped d')" "se_i se' = se_i se" for se'
  proof -
    from that(2) assms(5) have "0 \<le> se_i se'" by simp
    from nonneg_entry_same [OF srt that(1) mem that(2) this] assms(4) show ?thesis by simp
  qed
  with mark show ?thesis by blast
qed

lemma scanDevices_failed_split:
  "scanDevices fs a dns d k = (r, d', lg) \<Longrightarrow> r = Inl e \<Longrightarrow> e \<noteq> NotFound \<Longrightarrow> wellFormed d \<Longrightarrow>
     sorted (map dn_n dns) \<Longrightarrow> \<forall>x \<in> set dns. 0 \<le> dn_n x \<Longrightarrow>
     \<forall>j<k. \<forall>x \<in> set dns. se_i (d_skipped d ! j) < dn_n x \<Longrightarrow> k \<le> length (d_skipped d) \<Longrightarrow>
     \<exists>pre dn rest. dns = pre @ dn # rest \<and> lg \<noteq> [] \<and> last lg = (dn, Inl e)
        \<and> readAddress fs dn = Inl e
        \<and> (\<forall>x \<in> set pre. 0 \<le> d_n d' \<and> dn_n x \<le> d_n d'
              \<and> (\<forall>se \<in> set (d_skipped d'). se_i se = dn_n x \<longrightarrow> se_addr se \<noteq> a))
        \<and> dn_n dn \<notin> se_i ` set (d_skipped d')
        \<and> \<not> (0 \<le> d_n d' \<and> dn_n dn \<le> d_n d')"
proof (induction rule: scanDevices_induct)
  case (nil d k)
  then show ?case by simp
next
  case (hit_other dn0 dns d k k' r d' lg)
  from hit_other.prems(4) have srt: "sorted (map dn_n dns)" by simp
  from hit_other.prems(5) have nn: "\<forall>x \<in> set dns. 0 \<le> dn_n x" and nn0: "0 \<le> dn_n dn0" by simp_all
  from cursor_step [OF hit_other.prems(6,4)] hit_other.hyps(1)
  have cur: "\<forall>j<k'. \<forall>x \<in> set dns. se_i (d_skipped d ! j) < dn_n x" by simp
  from hit_other.hyps(2) have len: "k' \<le> length (d_skipped d)" by simp
  from hit_other.IH [OF hit_other.prems(1,2,3) srt nn cur len]
  obtain pre dn rest where sp: "dns = pre @ dn # rest" "lg \<noteq> []" "last lg = (dn, Inl e)"
    "readAddress fs dn = Inl e"
    "\<forall>x \<in> set pre. 0 \<le> d_n d' \<and> dn_n x \<le> d_n d'
        \<and> (\<forall>se \<in> set (d_skipped d'). se_i se = dn_n x \<longrightarrow> se_addr se \<noteq> a)"
    "dn_n dn \<notin> se_i ` set (d_skipped d')" "\<not> (0 \<le> d_n d' \<and> dn_n dn \<le> d_n d')"
    by blast
  have mem: "d_skipped d ! k' \<in> set (d_skipped d)" using hit_other.hyps(2) by simp
  from entry_settles [OF hit_other.hyps(5) hit_other.prems(3) mem hit_other.hyps(4)]
    hit_other.hyps(3) nn0
  have "0 \<le> d_n d' \<and> dn_n dn0 \<le> d_n d'
        \<and> (\<forall>se \<in> set (d_skipped d'). se_i se = dn_n dn0 \<longrightarrow> se_addr se \<noteq> a)" by simp
  with sp(5) have all: "\<forall>x \<in> set (dn0 # pre). 0 \<le> d_n d' \<and> dn_n x \<le> d_n d'
        \<and> (\<forall>se \<in> set (d_skipped d'). se_i se = dn_n x \<longrightarrow> se_addr se \<noteq> a)" by simp
  from sp(1) have "dn0 # dns = (dn0 # pre) @ dn # rest" by simp
  with sp(2,3,4,6,7) all show ?case by blast
next
  case (hit_match dn0 dns d k k')
  then show ?case by simp
next
  case (below dn0 dns d k k' r d' lg)
  from below.prems(4) have srt: "sorted (map dn_n dns)" by simp
  from below.prems(5) have nn: "\<forall>x \<in> set dns. 0 \<le> dn_n x" and nn0: "0 \<le> dn_n dn0" by simp_all
  from cursor_step [OF below.prems(6,4)] below.hyps(1)
  have cur: "\<forall>j<k'. \<forall>x \<in> set dns. se_i (d_skipped d ! j) < dn_n x" by simp
  from cursorAt_le_length [OF below.prems(7)] below.hyps(1)
  have len: "k' \<le> length (d_skipped d)" by simp
  from below.IH [OF below.prems(1,2,3) srt nn cur len]
  obtain pre dn rest where sp: "dns = pre @ dn # rest" "lg \<noteq> []" "last lg = (dn, Inl e)"
    "readAddress fs dn = Inl e"
    "\<forall>x \<in> set pre. 0 \<le> d_n d' \<and> dn_n x \<le> d_n d'
        \<and> (\<forall>se \<in> set (d_skipped d'). se_i se = dn_n x \<longrightarrow> se_addr se \<noteq> a)"
    "dn_n dn \<notin> se_i ` set (d_skipped d')" "\<not> (0 \<le> d_n d' \<and> dn_n dn \<le> d_n d')"
    by blast
  from scanDevices_gate [OF below.hyps(5,3)]
  have gate: "d_n d \<le> d_n d'" "\<forall>(dn, x) \<in> set lg. d_n d < dn_n dn" by simp_all
  from below.prems(6) have "\<forall>j<k. se_i (d_skipped d ! j) < dn_n dn0" by simp
  from not_hit_absent [OF _ nn0 this] below.hyps(1,2) below.prems(3)
  have absent: "dn_n dn0 \<notin> se_i ` set (d_skipped d)" by (simp add: wellFormed_def)
  have "se_i se \<noteq> dn_n dn0" if "se \<in> set (d_skipped d')" for se
  proof -
    from scanDevices_new_entries [OF below.hyps(5) that]
    show ?thesis
    proof
      assume "se \<in> set (d_skipped d)"
      then have "se_i se \<in> se_i ` set (d_skipped d)" by (rule imageI)
      with absent show ?thesis by auto
    next
      assume "\<exists>dn x. (dn, Inr x) \<in> set lg \<and> se = \<lparr>se_i = dn_n dn, se_addr = x\<rparr>"
      then obtain dn1 x where "(dn1, Inr x) \<in> set lg" "se_i se = dn_n dn1" by auto
      with gate(2) have "d_n d < se_i se" by fastforce
      with below.hyps(4) show ?thesis by simp
    qed
  qed
  with gate(1) below.hyps(3,4)
  have "0 \<le> d_n d' \<and> dn_n dn0 \<le> d_n d'
        \<and> (\<forall>se \<in> set (d_skipped d'). se_i se = dn_n dn0 \<longrightarrow> se_addr se \<noteq> a)" by auto
  with sp(5) have all: "\<forall>x \<in> set (dn0 # pre). 0 \<le> d_n d' \<and> dn_n x \<le> d_n d'
        \<and> (\<forall>se \<in> set (d_skipped d'). se_i se = dn_n x \<longrightarrow> se_addr se \<noteq> a)" by simp
  from sp(1) have "dn0 # dns = (dn0 # pre) @ dn # rest" by simp
  with sp(2,3,4,6,7) all show ?case by blast
next
  case (read_error dn0 dns d k k' e0)
  from read_error.prems(1) have e: "e0 = e" by simp
  from read_error.prems(5) have nn0: "0 \<le> dn_n dn0" by simp
  from read_error.prems(6) have "\<forall>j<k. se_i (d_skipped d ! j) < dn_n dn0" by simp
  from not_hit_absent [OF _ nn0 this] read_error.hyps(1,2) read_error.prems(3)
  have absent: "dn_n dn0 \<notin> se_i ` set (d_skipped d)" by (simp add: wellFormed_def)
  have "dn0 # dns = [] @ dn0 # dns" by simp
  moreover have "\<forall>x \<in> set ([] :: deviceName list). 0 \<le> d_n d \<and> dn_n x \<le> d_n d
        \<and> (\<forall>se \<in> set (d_skipped d). se_i se = dn_n x \<longrightarrow> se_addr se \<noteq> a)" by simp
  ultimately show ?case using absent read_error.hyps(3,4) e
    by (intro exI [of _ "[]"] exI [of _ dn0] exI [of _ dns]) simp
next
  case (read_match dn0 dns d k k')
  then show ?case by simp
next
  case (read_other dn0 dns d k k' x d2 r d' lg)
  from read_other.prems(4) have srt: "sorted (map dn_n dns)" by simp
  from read_other.prems(5) have nn: "\<forall>x \<in> set dns. 0 \<le> dn_n x" and nn0: "0 \<le> dn_n dn0" by simp_all
  from cursorAt_le_length [OF read_other.prems(7)] read_other.hyps(1)
  have len0: "k' \<le> length (d_skipped d)" by simp
  then have len: "k' \<le> length (d_skipped d2)" using read_other.hyps(6) by simp
  from cursor_step [OF read_other.prems(6,4)] read_other.hyps(1)
  have "\<forall>j<k'. \<forall>x \<in> set dns. se_i (d_skipped d ! j) < dn_n x" by simp
  with len0 have cur: "\<forall>j<k'. \<forall>x \<in> set dns. se_i (d_skipped d2 ! j) < dn_n x"
    using read_other.hyps(6) by (simp add: nth_append)
  have wf2: "wellFormed d2"
    unfolding read_other.hyps(6) using read_other.prems(3) read_other.hyps(3) by (rule wellFormed_append)
  from read_other.IH [OF read_other.prems(1,2) wf2 srt nn cur len]
  obtain pre dn rest where sp: "dns = pre @ dn # rest" "lg \<noteq> []" "last lg = (dn, Inl e)"
    "readAddress fs dn = Inl e"
    "\<forall>x \<in> set pre. 0 \<le> d_n d' \<and> dn_n x \<le> d_n d'
        \<and> (\<forall>se \<in> set (d_skipped d'). se_i se = dn_n x \<longrightarrow> se_addr se \<noteq> a)"
    "dn_n dn \<notin> se_i ` set (d_skipped d')" "\<not> (0 \<le> d_n d' \<and> dn_n dn \<le> d_n d')"
    by blast
  have mem: "\<lparr>se_i = dn_n dn0, se_addr = x\<rparr> \<in> set (d_skipped d2)"
    using read_other.hyps(6) by simp
  from entry_settles [OF read_other.hyps(7) wf2 mem] read_other.hyps(5) nn0
  have "0 \<le> d_n d' \<and> dn_n dn0 \<le> d_n d'
        \<and> (\<forall>se \<in> set (d_skipped d'). se_i se = dn_n dn0 \<longrightarrow> se_addr se \<noteq> a)" by simp
  with sp(5) have all: "\<forall>x \<in> set (dn0 # pre). 0 \<le> d_n d' \<and> dn_n x \<le> d_n d'
        \<and> (\<forall>se \<in> set (d_skipped d'). se_i se = dn_n x \<longrightarrow> se_addr se \<noteq> a)" by simp
  from sp(1) have "dn0 # dns = (dn0 # pre) @ dn # rest" by simp
  moreover from sp(2,3) have "(dn0, Inr x) # lg \<noteq> []" "last ((dn0, Inr x) # lg) = (dn, Inl e)" by simp_all
  ultimately show ?case using sp(4,6,7) all by blast
qed

lemma findByAddress_retry:
  assumes "wellFormed d" and "deviceDir_list bits fs d = Inr dns" and "\<forall>x \<in> set dns. 0 \<le> dn_n x"
    and "findByAddress bits fs d a = (Inl e, d', lg)" and "e \<noteq> NotFound"
  shows "\<exists>dn. dn \<in> set dns \<and> lg \<noteq> [] \<and> last lg = (dn, Inl e)
           \<and> findByAddress bits fs d' a = (Inl e, d', [(dn, Inl e)])"
proof -
  from assms(2,4) have run: "scanDevices fs a dns d 0 = (Inl e, d', lg)"
    by (simp add: findByAddress_def)
  have srt: "sorted (map dn_n dns)" using assms(2) by (rule deviceDir_list_sorted)
  from scanDevices_failed_split [OF run refl assms(5,1) srt assms(3)]
  obtain pre dn rest where sp: "dns = pre @ dn # rest" "lg \<noteq> []" "last lg = (dn, Inl e)"
    "readAddress fs dn = Inl e"
    "\<forall>x \<in> set pre. 0 \<le> d_n d' \<and> dn_n x \<le> d_n d'
        \<and> (\<forall>se \<in> set (d_skipped d'). se_i se = dn_n x \<longrightarrow> se_addr se \<noteq> a)"
    "dn_n dn \<notin> se_i ` set (d_skipped d')" "\<not> (0 \<le> d_n d' \<and> dn_n dn \<le> d_n d')"
    by auto
  from scanDevices_pass [OF sp(5,6,7,4), of rest 0] sp(1)
  have again: "scanDevices fs a dns d' 0 = (Inl e, d', [(dn, Inl e)])" by simp
  from findByAddress_config [OF assms(4)] have "d_prefix d' = d_prefix d" by simp
  then have "deviceDir_list bits fs d' = deviceDir_list bits fs d"
    by (simp add: deviceDir_list_def split: option.split)
  with assms(2) again have "findByAddress bits fs d' a = (Inl e, d', [(dn, Inl e)])"
    by (simp add: findByAddress_def)
  moreover from sp(1) have "dn \<in> set dns" by simp
  ultimately show ?thesis using sp(2,3) by blast
qed

subsection \<open>Claims on calls that fail\<close>

lemma ascending_wellFormed:
  assumes "sorted_wrt (<) (map se_i (d_skipped d))"
    and "\<forall>se \<in> set (d_skipped d). 0 \<le> se_i se \<and> se_i se \<le> d_n d"
  shows "wellFormed d"
proof -
  from assms(1) have "sorted_wrt (\<lambda>x y. se_i x < se_i y) (d_skipped d)"
    by (simp add: sorted_wrt_map)
  moreover have "\<And>x y. se_i x < se_i y \<Longrightarrow> entryOrder x y"
    by (simp add: entryOrder_def)
  ultimately have "sorted_wrt entryOrder (d_skipped d)"
    by (rule sorted_wrt_mono_rel [rotated])
  with assms(2) show ?thesis by (simp add: wellFormed_def)
qed

lemma findByAddress_ascending:
  assumes "findByAddress bits fs d a = (r, d', lg)"
    and "sorted_wrt (<) (map se_i (d_skipped d))"
    and "\<forall>se \<in> set (d_skipped d). 0 \<le> se_i se \<and> se_i se \<le> d_n d"
    and "\<forall>dns. deviceDir_list bits fs d = Inr dns \<longrightarrow> (\<forall>x \<in> set dns. 0 \<le> dn_n x)"
  shows "sorted_wrt (<) (map se_i (d_skipped d'))
         \<and> (\<forall>se \<in> set (d_skipped d'). 0 \<le> se_i se \<and> se_i se \<le> d_n d')"
proof -
  from assms(2,3) have wf: "wellFormed d" by (rule ascending_wellFormed)
  from findByAddress_wellFormed [OF assms(1) wf] have wf': "wellFormed d'" .
  have nn: "\<forall>se \<in> set (d_skipped d'). 0 \<le> se_i se"
  proof (cases rule: findByAddress_cases [of fs bits d a])
    case list_error
    with assms(1,3) show ?thesis by auto
  next
    case (scan dns)
    with assms(1) have run: "scanDevices fs a dns d 0 = (r, d', lg)" by simp
    from assms(4) scan(1) have "\<forall>x \<in> set dns. 0 \<le> dn_n x" by simp
    moreover from assms(3) have "\<forall>se \<in> set (d_skipped d). 0 \<le> se_i se" by simp
    ultimately show ?thesis using scanDevices_nonneg [OF run] by blast
  qed
  from wellFormed_nonneg_sorted [OF wf' nn] have "sorted_wrt (<) (map se_i (d_skipped d'))" .
  moreover from wf' nn have "\<forall>se \<in> set (d_skipped d'). 0 \<le> se_i se \<and> se_i se \<le> d_n d'"
    by (simp add: wellFormed_def)
  ultimately show ?thesis by simp
qed

text \<open>
  C7, as amended. After a call that fails the \<open>deviceDir\<close> is as the successful reads of
  the call left it: each address read is appended to the skip list, in order, and \<open>d.n\<close>
  is the number of the last device read with success. So the state is unchanged when the
  listing fails, and when the call reads nothing. When a read is what fails (the error is
  neither "not found" nor a listing error), it is the last read of the call and \<open>d.n\<close> is
  not advanced to its device: for a device number that is not negative, \<open>d.n\<close> stays
  below it. The call does not panic, and neither does the call that follows it, whatever
  it asks for and whatever the directory then holds.

  The \<open>deviceDir\<close> can be used again. Let the skip list before the call be in strictly
  ascending order of device numbers, none negative and none above \<open>d.n\<close>, and let no
  listed device have a negative number. Then the skip list is so again after the call
  that fails. And when a read is what failed, the same call made again on the same
  directory reads that device again, and no other, fails with the same error and leaves
  the state as it is.
\<close>

theorem failed_call_state:
  assumes "findByAddress bits fs d a = (Inl e, d', lg)"
  shows "d' = d\<lparr>d_n := (if recorded lg = [] then d_n d else se_i (last (recorded lg))),
                d_skipped := d_skipped d @ recorded lg\<rparr>
         \<and> (readdirnames fs = None \<longrightarrow> e = ListError \<and> lg = [] \<and> d' = d)
         \<and> (lg = [] \<longrightarrow> d' = d)
         \<and> (e \<noteq> NotFound \<and> e \<noteq> ListError \<longrightarrow>
              (\<exists>dn. lg \<noteq> [] \<and> last lg = (dn, Inl e) \<and> readAddress fs dn = Inl e
                    \<and> (0 \<le> dn_n dn \<longrightarrow> d_n d' < dn_n dn)))
         \<and> e \<noteq> Panic
         \<and> fst (findByAddress bits fs2 d' a2) \<noteq> Inl Panic
         \<and> (sorted_wrt (<) (map se_i (d_skipped d))
              \<and> (\<forall>se \<in> set (d_skipped d). 0 \<le> se_i se \<and> se_i se \<le> d_n d)
              \<and> (\<forall>dns. deviceDir_list bits fs d = Inr dns \<longrightarrow> (\<forall>x \<in> set dns. 0 \<le> dn_n x))
            \<longrightarrow> sorted_wrt (<) (map se_i (d_skipped d'))
                \<and> (\<forall>se \<in> set (d_skipped d'). 0 \<le> se_i se \<and> se_i se \<le> d_n d')
                \<and> (e \<noteq> NotFound \<and> e \<noteq> ListError \<longrightarrow>
                     (\<exists>dn. last lg = (dn, Inl e)
                            \<and> findByAddress bits fs d' a = (Inl e, d', [(dn, Inl e)]))))"
proof -
  note st = findByAddress_failure_state [OF assms]
  have "lg = [] \<longrightarrow> d' = d" using st by auto
  moreover have "readdirnames fs = None \<longrightarrow> e = ListError \<and> lg = [] \<and> d' = d"
    using assms by (auto simp: findByAddress_def deviceDir_list_def)
  moreover have "e \<noteq> Panic"
    using findByAddress_no_panic [of bits fs d a] assms by auto
  moreover have "fst (findByAddress bits fs2 d' a2) \<noteq> Inl Panic"
    by (rule findByAddress_no_panic)
  moreover have "sorted_wrt (<) (map se_i (d_skipped d'))
                \<and> (\<forall>se \<in> set (d_skipped d'). 0 \<le> se_i se \<and> se_i se \<le> d_n d')
                \<and> (e \<noteq> NotFound \<and> e \<noteq> ListError \<longrightarrow>
                     (\<exists>dn. last lg = (dn, Inl e)
                            \<and> findByAddress bits fs d' a = (Inl e, d', [(dn, Inl e)])))"
    if asc: "sorted_wrt (<) (map se_i (d_skipped d))"
      "\<forall>se \<in> set (d_skipped d). 0 \<le> se_i se \<and> se_i se \<le> d_n d"
      and nn: "\<forall>dns. deviceDir_list bits fs d = Inr dns \<longrightarrow> (\<forall>x \<in> set dns. 0 \<le> dn_n x)"
  proof -
    note keep = findByAddress_ascending [OF assms asc nn]
    have "\<exists>dn. last lg = (dn, Inl e) \<and> findByAddress bits fs d' a = (Inl e, d', [(dn, Inl e)])"
      if e: "e \<noteq> NotFound" "e \<noteq> ListError"
    proof (cases rule: findByAddress_cases [of fs bits d a])
      case list_error
      with assms e show ?thesis by simp
    next
      case (scan dns)
      from asc have wf: "wellFormed d" by (rule ascending_wellFormed)
      from nn scan(1) have "\<forall>x \<in> set dns. 0 \<le> dn_n x" by simp
      from findByAddress_retry [OF wf scan(1) this assms e(1)] show ?thesis by blast
    qed
    with keep show ?thesis by blast
  qed
  ultimately show ?thesis
    using st findByAddress_failing_read [OF assms] by blast
qed


text \<open>
  A witness: the first device reads as \<open>iface:S3\<close>, the attribute of the second cannot be
  opened. The call on a new \<open>deviceDir\<close> fails with the skip list extended by the first
  device and \<open>d.n = 0\<close>; the same call again reads \<open>sensor1\<close> only and fails in the same
  way.
\<close>

theorem failed_call_state_witness:
  "findByAddress 64
     \<lparr>readdirnames = Some [''sensor0'', ''sensor1''],
      openAddress = (\<lambda>name. if name = ''sensor0'' then Some (Content (''iface:S3'' @ [CHR 0x0A])) else None)\<rparr>
     (newDeviceDir ''/sys/class/lego-sensor'' ''sensor'') (addrOf ''iface:S1'')
   = (Inl OpenError,
      \<lparr>d_path = ''/sys/class/lego-sensor'', d_prefix = ''sensor'', d_n = 0,
       d_skipped = [\<lparr>se_i = 0, se_addr = addrOf ''iface:S3''\<rparr>]\<rparr>,
      [(\<lparr>dn_name = ''sensor0'', dn_n = 0\<rparr>, Inr (addrOf ''iface:S3'')),
       (\<lparr>dn_name = ''sensor1'', dn_n = 1\<rparr>, Inl OpenError)])
   \<and> sorted_wrt (<) (map se_i (d_skipped (newDeviceDir ''/sys/class/lego-sensor'' ''sensor'')))
   \<and> deviceDir_list 64
        \<lparr>readdirnames = Some [''sensor0'', ''sensor1''],
         openAddress = (\<lambda>name. if name = ''sensor0'' then Some (Content (''iface:S3'' @ [CHR 0x0A])) else None)\<rparr>
        (newDeviceDir ''/sys/class/lego-sensor'' ''sensor'')
      = Inr [\<lparr>dn_name = ''sensor0'', dn_n = 0\<rparr>, \<lparr>dn_name = ''sensor1'', dn_n = 1\<rparr>]
   \<and> findByAddress 64
     \<lparr>readdirnames = Some [''sensor0'', ''sensor1''],
      openAddress = (\<lambda>name. if name = ''sensor0'' then Some (Content (''iface:S3'' @ [CHR 0x0A])) else None)\<rparr>
     \<lparr>d_path = ''/sys/class/lego-sensor'', d_prefix = ''sensor'', d_n = 0,
       d_skipped = [\<lparr>se_i = 0, se_addr = addrOf ''iface:S3''\<rparr>]\<rparr> (addrOf ''iface:S1'')
   = (Inl OpenError,
      \<lparr>d_path = ''/sys/class/lego-sensor'', d_prefix = ''sensor'', d_n = 0,
       d_skipped = [\<lparr>se_i = 0, se_addr = addrOf ''iface:S3''\<rparr>]\<rparr>,
      [(\<lparr>dn_name = ''sensor1'', dn_n = 1\<rparr>, Inl OpenError)])"
proof -
  let ?fs = "\<lparr>readdirnames = Some [''sensor0'', ''sensor1''],
      openAddress = (\<lambda>name. if name = ''sensor0'' then Some (Content (''iface:S3'' @ [CHR 0x0A])) else None)\<rparr>"
  let ?d = "newDeviceDir ''/sys/class/lego-sensor'' ''sensor''"
  let ?d' = "\<lparr>d_path = ''/sys/class/lego-sensor'', d_prefix = ''sensor'', d_n = 0,
       d_skipped = [\<lparr>se_i = 0, se_addr = addrOf ''iface:S3''\<rparr>]\<rparr>"
  let ?dn1 = "\<lparr>dn_name = ''sensor1'', dn_n = 1\<rparr>"
  let ?lg = "[(\<lparr>dn_name = ''sensor0'', dn_n = 0\<rparr>, Inr (addrOf ''iface:S3'')),
       (?dn1, Inl OpenError)]"
  have call: "findByAddress 64 ?fs ?d (addrOf ''iface:S1'') = (Inl OpenError, ?d', ?lg)"
    by (simp add: eval_list eval_scan)
  have l: "deviceDir_list 64 ?fs ?d
      = Inr [\<lparr>dn_name = ''sensor0'', dn_n = 0\<rparr>, \<lparr>dn_name = ''sensor1'', dn_n = 1\<rparr>]"
    by (simp add: eval_list)
  have srt: "sorted_wrt (<) (map se_i (d_skipped ?d))"
    by (simp add: newDeviceDir_def)
  have entries: "\<forall>se \<in> set (d_skipped ?d). 0 \<le> se_i se \<and> se_i se \<le> d_n ?d"
    by (simp add: newDeviceDir_def)
  have listed: "\<forall>dns. deviceDir_list 64 ?fs ?d = Inr dns \<longrightarrow> (\<forall>x \<in> set dns. 0 \<le> dn_n x)"
    by (simp add: l)
  note six = failed_call_state [OF call, THEN conjunct2, THEN conjunct2, THEN conjunct2,
      THEN conjunct2, THEN conjunct2, THEN conjunct2]
  from srt entries listed
  have "\<exists>dn. last ?lg = (dn, Inl OpenError)
          \<and> findByAddress 64 ?fs ?d' (addrOf ''iface:S1'') = (Inl OpenError, ?d', [(dn, Inl OpenError)])"
    using six by simp
  then obtain dn where "last ?lg = (dn, Inl OpenError)"
    and again: "findByAddress 64 ?fs ?d' (addrOf ''iface:S1'') = (Inl OpenError, ?d', [(dn, Inl OpenError)])"
    by blast
  then have "dn = ?dn1" by simp
  with again have "findByAddress 64 ?fs ?d' (addrOf ''iface:S1'') = (Inl OpenError, ?d', [(?dn1, Inl OpenError)])"
    by simp
  with call srt l show ?thesis by (intro conjI)
qed

text \<open>
  C7 as stated fails: the only device is number 0 and its attribute cannot be opened.
  The call fails on that read, and \<open>d.n\<close> is still \<open>-1\<close>: it has not advanced to 0.
\<close>

theorem failed_read_counterexample:
  "findByAddress 64 \<lparr>readdirnames = Some [''sensor0''], openAddress = (\<lambda>name. None)\<rparr>
     (newDeviceDir ''/sys/class/lego-sensor'' ''sensor'') (addrOf ''iface:S1'')
   = (Inl OpenError,
      \<lparr>d_path = ''/sys/class/lego-sensor'', d_prefix = ''sensor'', d_n = - 1, d_skipped = []\<rparr>,
      [(\<lparr>dn_name = ''sensor0'', dn_n = 0\<rparr>, Inl OpenError)])"
  by (simp add: eval_list eval_scan)

subsection \<open>Claims on the reads of one device\<close>

lemma successful_read_last:
  assumes "allReads bits d calls = xs @ (dn, Inr x) # ys" and "0 \<le> dn_n dn"
  shows "\<forall>(dn', y) \<in> set ys. dn_n dn' \<noteq> dn_n dn"
  using assms
proof (induction calls arbitrary: d xs)
  case Nil
  then show ?case by (simp add: allReads_def)
next
  case (Cons c cs)
  obtain fs a where c: "c = (fs, a)" by (cases c)
  obtain r d' lg where f: "findByAddress bits fs d a = (r, d', lg)" by (rule prod_cases3)
  from Cons.prems(1) have eq: "lg @ allReads bits d' cs = xs @ (dn, Inr x) # ys"
    unfolding c allReads_Cons [OF f] .
  then consider us where "lg = xs @ us" "us @ allReads bits d' cs = (dn, Inr x) # ys"
    | us where "lg @ us = xs" "allReads bits d' cs = us @ (dn, Inr x) # ys"
    by (auto simp: append_eq_append_conv2)
  then show ?case
  proof cases
    case 1
    show ?thesis
    proof (cases us)
      case Nil
      with 1 have "allReads bits d' cs = [] @ (dn, Inr x) # ys" by simp
      from Cons.IH [OF this Cons.prems(2)] show ?thesis .
    next
      case (Cons u us')
      with 1 have lg: "lg = xs @ (dn, Inr x) # us'" and ys: "ys = us' @ allReads bits d' cs"
        by simp_all
      from findByAddress_after_read [OF f lg Cons.prems(2)]
      have hw: "dn_n dn \<le> d_n d'" and here: "\<forall>(dn', y) \<in> set us'. dn_n dn < dn_n dn'"
        by simp_all
      from hw Cons.prems(2) have "0 \<le> d_n d'" by simp
      from allReads_gate [OF this, of bits cs] hw
      have "\<forall>(dn', y) \<in> set (allReads bits d' cs). dn_n dn < dn_n dn'" by fastforce
      with here show ?thesis unfolding ys by fastforce
    qed
  next
    case 2
    from Cons.IH [OF 2(2) Cons.prems(2)] show ?thesis .
  qed
qed

text \<open>
  C2, as amended. Over any sequence of calls, from any state: once the address of a
  device whose number is not negative has been read with success, no later read, in that
  call or in a later one, is of a device with that number. And when \<open>d.n\<close> is not
  negative, every read is of a device whose number is above it.

  A read that fails does not count. In a state that the \<open>deviceDir\<close> can reach, on a
  directory that lists no negative number, let a call fail on a read (the error is not
  "not found"). Then the same call made again on the same directory reads that device
  again, and no other: the reads of the two calls are those of the first call, followed
  by the failed read once more.
\<close>

theorem successful_read_once:
  "(allReads bits d calls = xs @ (dn, Inr x) # ys \<and> 0 \<le> dn_n dn \<longrightarrow>
      (\<forall>(dn', y) \<in> set ys. dn_n dn' \<noteq> dn_n dn))
   \<and> (0 \<le> d_n d \<longrightarrow> (\<forall>(dn', y) \<in> set (allReads bits d calls). d_n d < dn_n dn'))
   \<and> (d = finalState bits (newDeviceDir path prefix) history
        \<and> deviceDir_list bits fs d = Inr dns \<and> (\<forall>x \<in> set dns. 0 \<le> dn_n x)
        \<and> findByAddress bits fs d a = (Inl e, d', lg) \<and> e \<noteq> NotFound \<longrightarrow>
      (\<exists>dnf. lg \<noteq> [] \<and> last lg = (dnf, Inl e)
          \<and> allReads bits d [(fs, a), (fs, a)] = lg @ [(dnf, Inl e)]))"
proof (intro conjI impI)
  assume "allReads bits d calls = xs @ (dn, Inr x) # ys \<and> 0 \<le> dn_n dn"
  then show "\<forall>(dn', y) \<in> set ys. dn_n dn' \<noteq> dn_n dn"
    using successful_read_last [of bits d calls xs dn x ys] by simp
next
  assume "0 \<le> d_n d"
  then show "\<forall>(dn', y) \<in> set (allReads bits d calls). d_n d < dn_n dn'"
    by (rule allReads_gate)
next
  assume h: "d = finalState bits (newDeviceDir path prefix) history
        \<and> deviceDir_list bits fs d = Inr dns \<and> (\<forall>x \<in> set dns. 0 \<le> dn_n x)
        \<and> findByAddress bits fs d a = (Inl e, d', lg) \<and> e \<noteq> NotFound"
  then have wf: "wellFormed d" by (simp add: finalState_wellFormed wellFormed_new)
  from h have l: "deviceDir_list bits fs d = Inr dns" and nn: "\<forall>x \<in> set dns. 0 \<le> dn_n x"
    and f: "findByAddress bits fs d a = (Inl e, d', lg)" and e: "e \<noteq> NotFound" by blast+
  from findByAddress_retry [OF wf l nn f e]
  obtain dnf where r: "lg \<noteq> []" "last lg = (dnf, Inl e)"
    "findByAddress bits fs d' a = (Inl e, d', [(dnf, Inl e)])" by blast
  from f r(3) have "allReads bits d [(fs, a), (fs, a)] = lg @ [(dnf, Inl e)]"
    by (simp add: allReads_def)
  with r(1,2) show "\<exists>dnf. lg \<noteq> [] \<and> last lg = (dnf, Inl e)
          \<and> allReads bits d [(fs, a), (fs, a)] = lg @ [(dnf, Inl e)]" by blast
qed


text \<open>
  A witness: the three devices of the tests, and two calls for \<open>iface:S1\<close>. The first
  call reads devices 0 and 1, the second reads device 2 only. And a directory where the
  attribute of \<open>sensor1\<close> cannot be opened: the call for \<open>iface:S1\<close> reads \<open>sensor0\<close>
  and fails on \<open>sensor1\<close>, and the same call again reads \<open>sensor1\<close> only.
\<close>

theorem successful_read_once_witness:
  "allReads 64 (newDeviceDir ''/sys/class/lego-sensor'' ''sensor'')
     [(classDir [(''sensor0'', ''iface:S3'' @ [CHR 0x0A]), (''sensor1'', ''iface:S1'' @ [CHR 0x0A]),
                 (''sensor2'', ''iface:S2'' @ [CHR 0x0A])], addrOf ''iface:S1''),
      (classDir [(''sensor0'', ''iface:S3'' @ [CHR 0x0A]), (''sensor1'', ''iface:S1'' @ [CHR 0x0A]),
                 (''sensor2'', ''iface:S2'' @ [CHR 0x0A])], addrOf ''iface:S1'')]
   = [] @ (\<lparr>dn_name = ''sensor0'', dn_n = 0\<rparr>, Inr (addrOf ''iface:S3''))
        # [(\<lparr>dn_name = ''sensor1'', dn_n = 1\<rparr>, Inr (addrOf ''iface:S1'')),
           (\<lparr>dn_name = ''sensor2'', dn_n = 2\<rparr>, Inr (addrOf ''iface:S2''))]
   \<and> 0 \<le> dn_n \<lparr>dn_name = ''sensor0'', dn_n = 0\<rparr>
   \<and> dn_n \<lparr>dn_name = ''sensor1'', dn_n = 1\<rparr> \<noteq> dn_n \<lparr>dn_name = ''sensor0'', dn_n = 0\<rparr>
   \<and> dn_n \<lparr>dn_name = ''sensor2'', dn_n = 2\<rparr> \<noteq> dn_n \<lparr>dn_name = ''sensor0'', dn_n = 0\<rparr>
   \<and> newDeviceDir ''/sys/class/lego-sensor'' ''sensor''
        = finalState 64 (newDeviceDir ''/sys/class/lego-sensor'' ''sensor'') []
   \<and> deviceDir_list 64
        \<lparr>readdirnames = Some [''sensor0'', ''sensor1''],
         openAddress = (\<lambda>name. if name = ''sensor0'' then Some (Content (''iface:S3'' @ [CHR 0x0A])) else None)\<rparr>
        (newDeviceDir ''/sys/class/lego-sensor'' ''sensor'')
      = Inr [\<lparr>dn_name = ''sensor0'', dn_n = 0\<rparr>, \<lparr>dn_name = ''sensor1'', dn_n = 1\<rparr>]
   \<and> findByAddress 64
        \<lparr>readdirnames = Some [''sensor0'', ''sensor1''],
         openAddress = (\<lambda>name. if name = ''sensor0'' then Some (Content (''iface:S3'' @ [CHR 0x0A])) else None)\<rparr>
        (newDeviceDir ''/sys/class/lego-sensor'' ''sensor'') (addrOf ''iface:S1'')
      = (Inl OpenError,
         \<lparr>d_path = ''/sys/class/lego-sensor'', d_prefix = ''sensor'', d_n = 0,
          d_skipped = [\<lparr>se_i = 0, se_addr = addrOf ''iface:S3''\<rparr>]\<rparr>,
         [(\<lparr>dn_name = ''sensor0'', dn_n = 0\<rparr>, Inr (addrOf ''iface:S3'')),
          (\<lparr>dn_name = ''sensor1'', dn_n = 1\<rparr>, Inl OpenError)])
   \<and> allReads 64 (newDeviceDir ''/sys/class/lego-sensor'' ''sensor'')
        [(\<lparr>readdirnames = Some [''sensor0'', ''sensor1''],
           openAddress = (\<lambda>name. if name = ''sensor0'' then Some (Content (''iface:S3'' @ [CHR 0x0A])) else None)\<rparr>,
          addrOf ''iface:S1''),
         (\<lparr>readdirnames = Some [''sensor0'', ''sensor1''],
           openAddress = (\<lambda>name. if name = ''sensor0'' then Some (Content (''iface:S3'' @ [CHR 0x0A])) else None)\<rparr>,
          addrOf ''iface:S1'')]
      = [(\<lparr>dn_name = ''sensor0'', dn_n = 0\<rparr>, Inr (addrOf ''iface:S3'')),
         (\<lparr>dn_name = ''sensor1'', dn_n = 1\<rparr>, Inl OpenError)]
        @ [(\<lparr>dn_name = ''sensor1'', dn_n = 1\<rparr>, Inl OpenError)]"
proof -
  let ?fs = "classDir [(''sensor0'', ''iface:S3'' @ [CHR 0x0A]), (''sensor1'', ''iface:S1'' @ [CHR 0x0A]),
                 (''sensor2'', ''iface:S2'' @ [CHR 0x0A])]"
  let ?d = "newDeviceDir ''/sys/class/lego-sensor'' ''sensor''"
  let ?ys = "[(\<lparr>dn_name = ''sensor1'', dn_n = 1\<rparr>, Inr (addrOf ''iface:S1'')),
           (\<lparr>dn_name = ''sensor2'', dn_n = 2\<rparr>, Inr (addrOf ''iface:S2''))]"
  have reads: "allReads 64 ?d [(?fs, addrOf ''iface:S1''), (?fs, addrOf ''iface:S1'')]
      = [] @ (\<lparr>dn_name = ''sensor0'', dn_n = 0\<rparr>, Inr (addrOf ''iface:S3'')) # ?ys"
    by (simp add: allReads_def eval_list eval_scan)
  have nonneg: "0 \<le> dn_n \<lparr>dn_name = ''sensor0'', dn_n = 0\<rparr>" by simp
  have later: "dn_n \<lparr>dn_name = ''sensor1'', dn_n = 1\<rparr> \<noteq> dn_n \<lparr>dn_name = ''sensor0'', dn_n = 0\<rparr>
   \<and> dn_n \<lparr>dn_name = ''sensor2'', dn_n = 2\<rparr> \<noteq> dn_n \<lparr>dn_name = ''sensor0'', dn_n = 0\<rparr>"
    using mp [OF successful_read_once [THEN conjunct1] conjI [OF reads nonneg]] by simp
  let ?fs2 = "\<lparr>readdirnames = Some [''sensor0'', ''sensor1''],
         openAddress = (\<lambda>name. if name = ''sensor0'' then Some (Content (''iface:S3'' @ [CHR 0x0A])) else None)\<rparr>"
  let ?dns = "[\<lparr>dn_name = ''sensor0'', dn_n = 0\<rparr>, \<lparr>dn_name = ''sensor1'', dn_n = 1\<rparr>]"
  let ?d' = "\<lparr>d_path = ''/sys/class/lego-sensor'', d_prefix = ''sensor'', d_n = 0,
          d_skipped = [\<lparr>se_i = 0, se_addr = addrOf ''iface:S3''\<rparr>]\<rparr>"
  let ?dn1 = "\<lparr>dn_name = ''sensor1'', dn_n = 1\<rparr>"
  let ?lg = "[(\<lparr>dn_name = ''sensor0'', dn_n = 0\<rparr>, Inr (addrOf ''iface:S3'')), (?dn1, Inl OpenError)]"
  have reach: "?d = finalState 64 ?d []" by simp
  have l: "deviceDir_list 64 ?fs2 ?d = Inr ?dns" by (simp add: eval_list)
  have nn: "\<forall>x \<in> set ?dns. 0 \<le> dn_n x" by simp
  have call: "findByAddress 64 ?fs2 ?d (addrOf ''iface:S1'') = (Inl OpenError, ?d', ?lg)"
    by (simp add: eval_list eval_scan)
  have ne: "OpenError \<noteq> NotFound" by simp
  from mp [OF successful_read_once [THEN conjunct2, THEN conjunct2]
              conjI [OF reach conjI [OF l conjI [OF nn conjI [OF call ne]]]]]
  obtain dnf where "last ?lg = (dnf, Inl OpenError)"
    and twice: "allReads 64 ?d [(?fs2, addrOf ''iface:S1''), (?fs2, addrOf ''iface:S1'')]
                  = ?lg @ [(dnf, Inl OpenError)]"
    by blast
  then have "dnf = ?dn1" by simp
  with twice have again: "allReads 64 ?d [(?fs2, addrOf ''iface:S1''), (?fs2, addrOf ''iface:S1'')]
                  = ?lg @ [(?dn1, Inl OpenError)]" by simp
  show ?thesis
    by (intro conjI) (rule reads, rule nonneg, rule conjunct1 [OF later], rule conjunct2 [OF later],
        rule reach, rule l, rule call, rule again)
qed

text \<open>
  C2 as stated fails. The \<open>address\<close> attribute of device 0 holds 64 bytes and no
  newline: each call reads it and fails with "address too long", and \<open>d.n\<close> does not
  advance, so the next call reads it again. And a device with a negative number,
  \<open>port-1\<close>, that a call has read and returned is read again by the next call, since
  \<open>d.n\<close> stays below zero.
\<close>

theorem read_twice_counterexample:
  "allReads 64 (newDeviceDir ''/sys/class/lego-sensor'' ''sensor'')
     [(classDir [(''sensor0'', replicate 64 (CHR ''a''))], addrOf ''iface:S1''),
      (classDir [(''sensor0'', replicate 64 (CHR ''a''))], addrOf ''iface:S1'')]
   = [(\<lparr>dn_name = ''sensor0'', dn_n = 0\<rparr>, Inl TooLong),
      (\<lparr>dn_name = ''sensor0'', dn_n = 0\<rparr>, Inl TooLong)]
   \<and> allReads 64 (newDeviceDir ''/sys/class/lego-port'' ''port'')
     [(classDir [(''port-1'', ''in1'' @ [CHR 0x0A])], addrOf ''in1''),
      (classDir [(''port-1'', ''in1'' @ [CHR 0x0A])], addrOf ''in1'')]
   = [(\<lparr>dn_name = ''port-1'', dn_n = - 1\<rparr>, Inr (addrOf ''in1'')),
      (\<lparr>dn_name = ''port-1'', dn_n = - 1\<rparr>, Inr (addrOf ''in1''))]"
  by (simp add: allReads_def eval_list eval_scan newAddress_Inl)

subsection \<open>Claims on a device number used again\<close>

lemma take_calls_other:
  assumes "\<forall>j<i. snd (calls ! j) \<noteq> old" and "i \<le> length calls"
  shows "\<forall>(fs, a) \<in> set (take i calls). a \<noteq> old"
proof -
  have "snd c \<noteq> old" if "c \<in> set (take i calls)" for c
  proof -
    from that obtain j where j: "j < length (take i calls)" "take i calls ! j = c"
      by (auto simp: in_set_conv_nth)
    with assms(2) have "j < i" "calls ! j = c" by simp_all
    with assms(1) show ?thesis by auto
  qed
  then show ?thesis by fastforce
qed

text \<open>
  C4, as amended. Let the skip list of a \<open>deviceDir\<close>, in a state it can reach, hold an
  entry for the device number \<open>N\<close>, not negative, with the address \<open>old\<close>. Then,
  whatever happens to the directory (the device may be deleted and another one created
  under the same number), no later call reads the \<open>address\<close> attribute of a device with
  number \<open>N\<close>, and a later call returns the path of a device with number \<open>N\<close> only when
  it asks for the address \<open>old\<close>. So a new device that uses the number again is never
  found under its own address.

  The entry stays in the skip list as long as no call asks for \<open>old\<close>. Then the first
  call that asks for \<open>old\<close>, on a directory that lists a device with number \<open>N\<close>, returns
  the path of that device and reads nothing, as long as the skip list holds \<open>old\<close> for no
  listed device of lower number: the new device is returned to a call that asks for the
  address of the device that was there before.
\<close>

theorem reused_number_answers_old_address:
  assumes "d = finalState bits (newDeviceDir path prefix) history"
    and "\<lparr>se_i = N, se_addr = old\<rparr> \<in> set (d_skipped d)" and "0 \<le> N"
    and "i < length calls" and "run bits d calls ! i = (r, d', lg)"
  shows "(\<forall>(dn, y) \<in> set lg. dn_n dn \<noteq> N)
         \<and> (returnedSlot bits prefix r = Some N \<longrightarrow> snd (calls ! i) = old)
         \<and> ((\<forall>j<i. snd (calls ! j) \<noteq> old) \<longrightarrow>
              \<lparr>se_i = N, se_addr = old\<rparr> \<in> set (d_skipped (finalState bits d (take i calls))))
         \<and> ((\<forall>j<i. snd (calls ! j) \<noteq> old) \<and> snd (calls ! i) = old
              \<and> deviceDir_list bits (fst (calls ! i)) (finalState bits d (take i calls)) = Inr dns
              \<and> N \<in> dn_n ` set dns
              \<and> (\<forall>se \<in> set (d_skipped (finalState bits d (take i calls))).
                    se_addr se = old \<and> se_i se < N \<longrightarrow> se_i se \<notin> dn_n ` set dns)
             \<longrightarrow> returnedSlot bits prefix r = Some N \<and> lg = [])"
proof -
  let ?se = "\<lparr>se_i = N, se_addr = old\<rparr>"
  let ?di = "finalState bits d (take i calls)"
  have wf: "wellFormed d" unfolding assms(1) by (simp add: finalState_wellFormed wellFormed_new)
  have cfg: "d_prefix d = prefix"
    unfolding assms(1) using finalState_config [of bits "newDeviceDir path prefix" history]
    by (simp add: newDeviceDir_def)
  from wf assms(2,3) have hw: "N \<le> d_n d" by (auto simp: wellFormed_def)
  with assms(3) have nn: "0 \<le> d_n d" by simp
  have one: "\<forall>se \<in> set (d_skipped d). se_i se = N \<longrightarrow> se_addr se = old"
  proof (intro ballI impI)
    fix se assume "se \<in> set (d_skipped d)" "se_i se = N"
    with nonneg_entry_same [of "d_skipped d" se "\<lparr>se_i = N, se_addr = old\<rparr>"] wf assms(2,3)
    have "se = \<lparr>se_i = N, se_addr = old\<rparr>" by (simp add: wellFormed_def)
    then show "se_addr se = old" by simp
  qed
  from run_stale [OF nn hw one assms(4,5)] cfg
  have stale: "(\<forall>(dn, y) \<in> set lg. dn_n dn \<noteq> N)
         \<and> (returnedSlot bits prefix r = Some N \<longrightarrow> snd (calls ! i) = old)" by simp
  have stays: "?se \<in> set (d_skipped ?di)" if "\<forall>j<i. snd (calls ! j) \<noteq> old"
  proof -
    from take_calls_other [OF that] assms(4)
    have "\<forall>(fs, a) \<in> set (take i calls). a \<noteq> se_addr ?se" by simp
    then show ?thesis using assms(2) by (rule finalState_keeps_entry)
  qed
  have replay: "returnedSlot bits prefix r = Some N \<and> lg = []"
    if other: "\<forall>j<i. snd (calls ! j) \<noteq> old" and ask: "snd (calls ! i) = old"
      and l: "deviceDir_list bits (fst (calls ! i)) ?di = Inr dns"
      and listed: "N \<in> dn_n ` set dns"
      and first: "\<forall>se \<in> set (d_skipped ?di). se_addr se = old \<and> se_i se < N \<longrightarrow> se_i se \<notin> dn_n ` set dns"
  proof -
    have wfi: "wellFormed ?di" using wf by (rule finalState_wellFormed)
    have cfgi: "d_prefix ?di = prefix" using finalState_config [of bits d "take i calls"] cfg by simp
    from stays [OF other] have mem: "?se \<in> set (d_skipped ?di)" .
    have srt: "sorted (map dn_n dns)" using l by (rule deviceDir_list_sorted)
    from scanDevices_replay [of ?di dns ?se old 0 "fst (calls ! i)", OF wfi srt mem] assms(3) listed first
    obtain dn sk' where dn: "dn \<in> set dns" "dn_n dn = N"
      "scanDevices (fst (calls ! i)) old dns ?di 0
         = (Inr (Join (d_path ?di) (dn_name dn)), ?di\<lparr>d_skipped := sk'\<rparr>, [])"
      by auto
    from run_nth [OF assms(4), of bits d] assms(5) ask
    have "findByAddress bits (fst (calls ! i)) ?di old = (r, d', lg)" by simp
    with l dn(3) have res: "r = Inr (Join (d_path ?di) (dn_name dn))" "lg = []"
      by (simp_all add: findByAddress_def)
    from returnedSlot_listed [OF l dn(1), of "d_path ?di"] dn(2) cfgi res(1)
    have "returnedSlot bits prefix r = Some N" by simp
    with res(2) show ?thesis by simp
  qed
  from stale stays replay show ?thesis by blast
qed


text \<open>
  A witness: after the first call of the test \<open>ProducesSkippedDevices\<close> the skip list
  holds \<open>iface:S3\<close> for device 0. The new \<open>sensor0\<close> has address \<open>iface:S4\<close>. A call for
  \<open>iface:S4\<close> reads nothing and returns "not found"; the call for \<open>iface:S3\<close> that
  follows reads nothing and returns \<open>sensor0\<close>.
\<close>

theorem reused_number_answers_old_address_witness:
  "\<lparr>d_path = ''/sys/class/lego-sensor'', d_prefix = ''sensor'', d_n = 1,
     d_skipped = [\<lparr>se_i = 0, se_addr = addrOf ''iface:S3''\<rparr>]\<rparr>
     = finalState 64 (newDeviceDir ''/sys/class/lego-sensor'' ''sensor'')
         [(classDir [(''sensor0'', ''iface:S3'' @ [CHR 0x0A]), (''sensor1'', ''iface:S1'' @ [CHR 0x0A])],
           addrOf ''iface:S1'')]
   \<and> run 64 \<lparr>d_path = ''/sys/class/lego-sensor'', d_prefix = ''sensor'', d_n = 1,
              d_skipped = [\<lparr>se_i = 0, se_addr = addrOf ''iface:S3''\<rparr>]\<rparr>
        [(classDir [(''sensor0'', ''iface:S4'' @ [CHR 0x0A]), (''sensor1'', ''iface:S1'' @ [CHR 0x0A])],
          addrOf ''iface:S4''),
         (classDir [(''sensor0'', ''iface:S4'' @ [CHR 0x0A]), (''sensor1'', ''iface:S1'' @ [CHR 0x0A])],
          addrOf ''iface:S3'')] ! 0
      = (Inl NotFound,
         \<lparr>d_path = ''/sys/class/lego-sensor'', d_prefix = ''sensor'', d_n = 1,
          d_skipped = [\<lparr>se_i = 0, se_addr = addrOf ''iface:S3''\<rparr>]\<rparr>, [])
   \<and> returnedSlot 64 ''sensor'' (Inl NotFound) \<noteq> Some 0
   \<and> run 64 \<lparr>d_path = ''/sys/class/lego-sensor'', d_prefix = ''sensor'', d_n = 1,
              d_skipped = [\<lparr>se_i = 0, se_addr = addrOf ''iface:S3''\<rparr>]\<rparr>
        [(classDir [(''sensor0'', ''iface:S4'' @ [CHR 0x0A]), (''sensor1'', ''iface:S1'' @ [CHR 0x0A])],
          addrOf ''iface:S4''),
         (classDir [(''sensor0'', ''iface:S4'' @ [CHR 0x0A]), (''sensor1'', ''iface:S1'' @ [CHR 0x0A])],
          addrOf ''iface:S3'')] ! 1
      = (Inr (Join ''/sys/class/lego-sensor'' ''sensor0''),
         \<lparr>d_path = ''/sys/class/lego-sensor'', d_prefix = ''sensor'', d_n = 1, d_skipped = []\<rparr>, [])
   \<and> deviceDir_list 64
        (classDir [(''sensor0'', ''iface:S4'' @ [CHR 0x0A]), (''sensor1'', ''iface:S1'' @ [CHR 0x0A])])
        \<lparr>d_path = ''/sys/class/lego-sensor'', d_prefix = ''sensor'', d_n = 1,
          d_skipped = [\<lparr>se_i = 0, se_addr = addrOf ''iface:S3''\<rparr>]\<rparr>
      = Inr [\<lparr>dn_name = ''sensor0'', dn_n = 0\<rparr>, \<lparr>dn_name = ''sensor1'', dn_n = 1\<rparr>]
   \<and> returnedSlot 64 ''sensor'' (Inr (Join ''/sys/class/lego-sensor'' ''sensor0'')) = Some 0"
proof -
  let ?d1 = "\<lparr>d_path = ''/sys/class/lego-sensor'', d_prefix = ''sensor'', d_n = 1,
     d_skipped = [\<lparr>se_i = 0, se_addr = addrOf ''iface:S3''\<rparr>]\<rparr>"
  let ?fs = "classDir [(''sensor0'', ''iface:S4'' @ [CHR 0x0A]), (''sensor1'', ''iface:S1'' @ [CHR 0x0A])]"
  let ?calls = "[(?fs, addrOf ''iface:S4''), (?fs, addrOf ''iface:S3'')]"
  let ?dns = "[\<lparr>dn_name = ''sensor0'', dn_n = 0\<rparr>, \<lparr>dn_name = ''sensor1'', dn_n = 1\<rparr>]"
  let ?r = "Inr (Join ''/sys/class/lego-sensor'' ''sensor0'') :: error + filepath"
  have reach: "?d1 = finalState 64 (newDeviceDir ''/sys/class/lego-sensor'' ''sensor'')
         [(classDir [(''sensor0'', ''iface:S3'' @ [CHR 0x0A]), (''sensor1'', ''iface:S1'' @ [CHR 0x0A])],
           addrOf ''iface:S1'')]"
    by (simp add: eval_list eval_scan)
  have entry: "\<lparr>se_i = 0, se_addr = addrOf ''iface:S3''\<rparr> \<in> set (d_skipped ?d1)" by simp
  have ne: "addrOf ''iface:S4'' \<noteq> addrOf ''iface:S3''"
    by (simp add: addrOf_def newAddress_Inr)
  have call0: "run 64 ?d1 ?calls ! 0 = (Inl NotFound, ?d1, [])"
    by (simp add: eval_list eval_scan)
  have call1: "run 64 ?d1 ?calls ! 1
      = (?r, \<lparr>d_path = ''/sys/class/lego-sensor'', d_prefix = ''sensor'', d_n = 1, d_skipped = []\<rparr>, [])"
    by (simp add: eval_list eval_scan)
  have i0: "(0::nat) < length ?calls" and i1: "(1::nat) < length ?calls" by simp_all
  from reused_number_answers_old_address [OF reach entry _ i0 call0]
  have "returnedSlot 64 ''sensor'' (Inl NotFound) = Some 0 \<longrightarrow> snd (?calls ! 0) = addrOf ''iface:S3''"
    by simp
  with ne have never: "returnedSlot 64 ''sensor'' (Inl NotFound) \<noteq> Some 0" by auto
  have st: "finalState 64 ?d1 (take 1 ?calls) = ?d1"
    by (simp add: eval_list eval_scan)
  have l: "deviceDir_list 64 ?fs ?d1 = Inr ?dns" by (simp add: eval_list)
  have other: "\<forall>j<1. snd (?calls ! j) \<noteq> addrOf ''iface:S3''" using ne by simp
  have ask: "snd (?calls ! 1) = addrOf ''iface:S3''" by simp
  have l1: "deviceDir_list 64 (fst (?calls ! 1)) (finalState 64 ?d1 (take 1 ?calls)) = Inr ?dns"
    unfolding st using l by simp
  have listed: "0 \<in> dn_n ` set ?dns" by simp
  have first: "\<forall>se \<in> set (d_skipped (finalState 64 ?d1 (take 1 ?calls))).
      se_addr se = addrOf ''iface:S3'' \<and> se_i se < 0 \<longrightarrow> se_i se \<notin> dn_n ` set ?dns"
    unfolding st by simp
  note four = reused_number_answers_old_address [OF reach entry _ i1 call1,
      THEN conjunct2, THEN conjunct2, THEN conjunct2]
  have "returnedSlot 64 ''sensor'' ?r = Some 0 \<and> ([] :: readLog) = []"
    by (rule mp [OF four conjI [OF other conjI [OF ask conjI [OF l1 conjI [OF listed first]]]]]) simp
  then have found: "returnedSlot 64 ''sensor'' ?r = Some 0" by simp
  show ?thesis
    by (intro conjI) (rule reach, rule call0, rule never, rule call1, rule l, rule found)
qed

text \<open>
  C4 as stated fails. The first call, for \<open>iface:S1\<close>, reads \<open>sensor0\<close>, records its
  address \<open>iface:S3\<close> and returns \<open>sensor1\<close>. Then \<open>sensor0\<close> is deleted and a new
  device with address \<open>iface:S4\<close> is created as \<open>sensor0\<close>. The second call asks for
  \<open>iface:S3\<close>: it reads nothing and returns the path of the new \<open>sensor0\<close>.

  With negative numbers the new device is even found under its own address: after two
  calls that record \<open>sensor-5\<close> and then \<open>sensor-7\<close>, \<open>sensor-7\<close> is deleted and created
  again with address \<open>iface:S4\<close>, and the call for \<open>iface:S4\<close> reads and returns it.
\<close>

theorem reused_number_counterexample:
  "run 64 (newDeviceDir ''/sys/class/lego-sensor'' ''sensor'')
     [(classDir [(''sensor0'', ''iface:S3'' @ [CHR 0x0A]), (''sensor1'', ''iface:S1'' @ [CHR 0x0A])],
       addrOf ''iface:S1''),
      (classDir [(''sensor0'', ''iface:S4'' @ [CHR 0x0A]), (''sensor1'', ''iface:S1'' @ [CHR 0x0A])],
       addrOf ''iface:S3'')]
   = [(Inr (Join ''/sys/class/lego-sensor'' ''sensor1''),
       \<lparr>d_path = ''/sys/class/lego-sensor'', d_prefix = ''sensor'', d_n = 1,
        d_skipped = [\<lparr>se_i = 0, se_addr = addrOf ''iface:S3''\<rparr>]\<rparr>,
       [(\<lparr>dn_name = ''sensor0'', dn_n = 0\<rparr>, Inr (addrOf ''iface:S3'')),
        (\<lparr>dn_name = ''sensor1'', dn_n = 1\<rparr>, Inr (addrOf ''iface:S1''))]),
      (Inr (Join ''/sys/class/lego-sensor'' ''sensor0''),
       \<lparr>d_path = ''/sys/class/lego-sensor'', d_prefix = ''sensor'', d_n = 1, d_skipped = []\<rparr>,
       [])]
   \<and> returnedSlot 64 ''sensor'' (Inr (Join ''/sys/class/lego-sensor'' ''sensor0'')) = Some 0
   \<and> run 64 (newDeviceDir ''/sys/class/lego-sensor'' ''sensor'')
     [(classDir [(''sensor-5'', ''iface:S3'' @ [CHR 0x0A])], addrOf ''iface:S1''),
      (classDir [(''sensor-5'', ''iface:S3'' @ [CHR 0x0A]), (''sensor-7'', ''iface:S2'' @ [CHR 0x0A])],
       addrOf ''iface:S1''),
      (classDir [(''sensor-5'', ''iface:S3'' @ [CHR 0x0A]), (''sensor-7'', ''iface:S4'' @ [CHR 0x0A])],
       addrOf ''iface:S4'')]
   = [(Inl NotFound,
       \<lparr>d_path = ''/sys/class/lego-sensor'', d_prefix = ''sensor'', d_n = - 5,
        d_skipped = [\<lparr>se_i = - 5, se_addr = addrOf ''iface:S3''\<rparr>]\<rparr>,
       [(\<lparr>dn_name = ''sensor-5'', dn_n = - 5\<rparr>, Inr (addrOf ''iface:S3''))]),
      (Inl NotFound,
       \<lparr>d_path = ''/sys/class/lego-sensor'', d_prefix = ''sensor'', d_n = - 7,
        d_skipped = [\<lparr>se_i = - 5, se_addr = addrOf ''iface:S3''\<rparr>,
                     \<lparr>se_i = - 7, se_addr = addrOf ''iface:S2''\<rparr>]\<rparr>,
       [(\<lparr>dn_name = ''sensor-7'', dn_n = - 7\<rparr>, Inr (addrOf ''iface:S2''))]),
      (Inr (Join ''/sys/class/lego-sensor'' ''sensor-7''),
       \<lparr>d_path = ''/sys/class/lego-sensor'', d_prefix = ''sensor'', d_n = - 7,
        d_skipped = [\<lparr>se_i = - 5, se_addr = addrOf ''iface:S3''\<rparr>,
                     \<lparr>se_i = - 7, se_addr = addrOf ''iface:S2''\<rparr>]\<rparr>,
       [(\<lparr>dn_name = ''sensor-7'', dn_n = - 7\<rparr>, Inr (addrOf ''iface:S4''))])]"
  by (simp add: eval_list eval_scan returnedSlot_def slotOf_def)

end
